theory Spec2Isabelle
  imports Main "HOL-Library.Word"
begin

section \<open>Round-robin stream scheduler (quic/priority/RoundRobin.cpp)\<close>

text \<open>
  The scheduler keeps a \<^verbatim>\<open>std::list\<close> of identifiers, an iterator \<^verbatim>\<open>nextIt_\<close> into it and,
  above a size threshold, a hash map from identifiers to list iterators.  Iterators of a
  \<^verbatim>\<open>std::list\<close> stay valid while other elements are inserted or erased, so a list element is
  modelled as a pair of a node identity and the stored value, and an iterator as the identity of
  the node it points to (\<open>None\<close> is \<^verbatim>\<open>list_.end()\<close>).  Node identities are handed out by a
  counter.  \<^verbatim>\<open>current_\<close> and \<^verbatim>\<open>advanceAfter_\<close> are 64-bit unsigned counters.
\<close>

type_synonym u64 = "64 word"
type_synonym u8 = "8 word"
type_synonym Identifier = nat
type_synonym node = nat
type_synonym iterator = "node option"
type_synonym ListType = "(node \<times> Identifier) list"

datatype AdvanceType = Nexts | Bytes

datatype rr_abort =
    CheckFailed        \<comment> \<open>\<^verbatim>\<open>CHECK(!list_.empty())\<close>\<close>
  | DuplicateValue     \<comment> \<open>\<^verbatim>\<open>DCHECK(!erase(value))\<close> in insert\<close>
  | InvalidIterator    \<comment> \<open>dereferencing or incrementing \<^verbatim>\<open>end()\<close>\<close>

record RoundRobin =
  list_rr :: ListType
  nextIt_rr :: iterator
  indexMap_rr :: "Identifier \<rightharpoonup> iterator"
  advanceType_rr :: AdvanceType
  advanceAfter_rr :: u64
  current_rr :: u64
  useIndexMap_rr :: bool
  fresh_rr :: node

definition kBuildIndexThreshold :: nat where
  "kBuildIndexThreshold = 30"

definition kDestroyIndexThreshold :: nat where
  "kDestroyIndexThreshold = 10"

subsection \<open>The list primitives used by the scheduler\<close>

definition list_begin :: "ListType \<Rightarrow> iterator" where
  "list_begin l = (case l of [] \<Rightarrow> None | x # _ \<Rightarrow> Some (fst x))"

text \<open>\<^verbatim>\<open>*it\<close>: the value stored in the node; \<open>None\<close> when the iterator points to no node.\<close>

definition list_deref :: "ListType \<Rightarrow> iterator \<Rightarrow> Identifier option" where
  "list_deref l it = (case it of None \<Rightarrow> None | Some a \<Rightarrow> map_of l a)"

text \<open>\<^verbatim>\<open>++it\<close>: the node after the one \<open>it\<close> points to.\<close>

fun list_next :: "node \<Rightarrow> ListType \<Rightarrow> iterator" where
  "list_next a [] = None"
| "list_next a (x # xs) = (if fst x = a then list_begin xs else list_next a xs)"

text \<open>\<^verbatim>\<open>list_.insert(pos, value)\<close>: the new node goes in front of \<open>pos\<close> (at the back for \<^verbatim>\<open>end()\<close>).\<close>

fun list_insert :: "iterator \<Rightarrow> node \<times> Identifier \<Rightarrow> ListType \<Rightarrow> ListType" where
  "list_insert pos n [] = [n]"
| "list_insert pos n (x # xs) =
     (if pos = Some (fst x) then n # x # xs else x # list_insert pos n xs)"

text \<open>\<^verbatim>\<open>list_.erase(pos)\<close>: unlinks the node and returns the iterator following it.\<close>

fun list_erase :: "node \<Rightarrow> ListType \<Rightarrow> ListType \<times> iterator" where
  "list_erase a [] = ([], None)"
| "list_erase a (x # xs) =
     (if fst x = a then (xs, list_begin xs)
      else (x # fst (list_erase a xs), snd (list_erase a xs)))"

text \<open>The nodes in front of the cursor and the nodes behind it (the cursor's own node excluded).\<close>

definition nodes_before :: "iterator \<Rightarrow> ListType \<Rightarrow> ListType" where
  "nodes_before it l = takeWhile (\<lambda>x. Some (fst x) \<noteq> it) l"

definition nodes_after :: "iterator \<Rightarrow> ListType \<Rightarrow> ListType" where
  "nodes_after it l = tl (dropWhile (\<lambda>x. Some (fst x) \<noteq> it) l)"

subsection \<open>The scheduler's operations\<close>

definition advanceAfterNext :: "u64 \<Rightarrow> RoundRobin \<Rightarrow> RoundRobin" where
  "advanceAfterNext n s =
     (let s1 = (if advanceType_rr s = Bytes then s\<lparr>current_rr := 0\<rparr> else s)
      in s1\<lparr>advanceType_rr := Nexts, advanceAfter_rr := n\<rparr>)"

definition advanceAfterBytes :: "u64 \<Rightarrow> RoundRobin \<Rightarrow> RoundRobin" where
  "advanceAfterBytes bytes s =
     (let s1 = (if advanceType_rr s = Nexts then s\<lparr>current_rr := 0\<rparr> else s)
      in s1\<lparr>advanceType_rr := Bytes, advanceAfter_rr := bytes\<rparr>)"

definition RoundRobin_empty :: "RoundRobin \<Rightarrow> bool" where
  "RoundRobin_empty s = (list_rr s = [])"

text \<open>\<^verbatim>\<open>erase(ListType::iterator)\<close>.\<close>

definition erase_it :: "iterator \<Rightarrow> RoundRobin \<Rightarrow> RoundRobin" where
  "erase_it eraseIt s =
     (case eraseIt of
        None \<Rightarrow> s
      | Some a \<Rightarrow>
          (let r = list_erase a (list_rr s);
               s1 = (if eraseIt = nextIt_rr s
                     then s\<lparr>list_rr := fst r,
                            nextIt_rr := (if snd r = None then list_begin (fst r) else snd r),
                            current_rr := 0\<rparr>
                     else s\<lparr>list_rr := fst r\<rparr>)
           in if length (list_rr s1) < kDestroyIndexThreshold
              then s1\<lparr>useIndexMap_rr := False, indexMap_rr := Map.empty\<rparr>
              else s1))"

text \<open>\<^verbatim>\<open>erase(Identifier)\<close>: the result flag and the scheduler afterwards.\<close>

definition RoundRobin_erase :: "Identifier \<Rightarrow> RoundRobin \<Rightarrow> bool \<times> RoundRobin" where
  "RoundRobin_erase v s =
     (if list_rr s = [] then (False, s)
      else if useIndexMap_rr s then
        (case indexMap_rr s v of
           None \<Rightarrow> (False, s)
         | Some listIt \<Rightarrow> (True, erase_it listIt (s\<lparr>indexMap_rr := (indexMap_rr s)(v := None)\<rparr>)))
      else if list_deref (list_rr s) (nextIt_rr s) = Some v then
        (True, (erase_it (nextIt_rr s) s)\<lparr>current_rr := 0\<rparr>)
      else
        (case find (\<lambda>x. snd x = v) (rev (nodes_before (nextIt_rr s) (list_rr s))) of
           Some x \<Rightarrow> (True, erase_it (Some (fst x)) s)
         | None \<Rightarrow>
            (case find (\<lambda>x. snd x = v) (nodes_after (nextIt_rr s) (list_rr s)) of
               Some x \<Rightarrow> (True, erase_it (Some (fst x)) s)
             | None \<Rightarrow> (False, s))))"

definition buildIndex :: "RoundRobin \<Rightarrow> RoundRobin" where
  "buildIndex s =
     s\<lparr>indexMap_rr := foldl (\<lambda>m x. m(snd x \<mapsto> Some (fst x))) (indexMap_rr s) (list_rr s)\<rparr>"

text \<open>
  \<^verbatim>\<open>insert\<close>, in a build with assertions.  \<^verbatim>\<open>DCHECK(!erase(value))\<close> runs \<^verbatim>\<open>erase\<close> first and aborts when
  the value was present ("the caller needs to verify it never inserts a duplicate").
\<close>

definition RoundRobin_insert :: "Identifier \<Rightarrow> RoundRobin \<Rightarrow> rr_abort + RoundRobin" where
  "RoundRobin_insert v s =
     (case RoundRobin_erase v s of
        (True, _) \<Rightarrow> Inl DuplicateValue
      | (False, s0) \<Rightarrow>
         (let s1 = (if \<not> useIndexMap_rr s0 \<and> kBuildIndexThreshold \<le> length (list_rr s0)
                    then buildIndex (s0\<lparr>useIndexMap_rr := True\<rparr>) else s0);
              insertIt = Some (fresh_rr s1);
              s2 = s1\<lparr>list_rr := list_insert (nextIt_rr s1) (fresh_rr s1, v) (list_rr s1),
                      fresh_rr := Suc (fresh_rr s1)\<rparr>;
              s3 = (if length (list_rr s2) = 1
                    then s2\<lparr>nextIt_rr := list_begin (list_rr s2)\<rparr> else s2)
          in Inr (if useIndexMap_rr s3
                  then s3\<lparr>indexMap_rr := (indexMap_rr s3)(v \<mapsto> insertIt)\<rparr>
                  else s3)))"

text \<open>
  \<^verbatim>\<open>insert\<close>, in a build without assertions (\<^verbatim>\<open>NDEBUG\<close>): the \<^verbatim>\<open>DCHECK\<close> and the call of \<^verbatim>\<open>erase\<close> in
  it are compiled out, so a value that is present is inserted a second time.
\<close>

definition RoundRobin_insert_NDEBUG :: "Identifier \<Rightarrow> RoundRobin \<Rightarrow> RoundRobin" where
  "RoundRobin_insert_NDEBUG v s0 =
     (let s1 = (if \<not> useIndexMap_rr s0 \<and> kBuildIndexThreshold \<le> length (list_rr s0)
                then buildIndex (s0\<lparr>useIndexMap_rr := True\<rparr>) else s0);
          insertIt = Some (fresh_rr s1);
          s2 = s1\<lparr>list_rr := list_insert (nextIt_rr s1) (fresh_rr s1, v) (list_rr s1),
                  fresh_rr := Suc (fresh_rr s1)\<rparr>;
          s3 = (if length (list_rr s2) = 1
                then s2\<lparr>nextIt_rr := list_begin (list_rr s2)\<rparr> else s2)
      in if useIndexMap_rr s3
         then s3\<lparr>indexMap_rr := (indexMap_rr s3)(v \<mapsto> insertIt)\<rparr>
         else s3)"

definition maybeAdvance :: "RoundRobin \<Rightarrow> rr_abort + RoundRobin" where
  "maybeAdvance s =
     (if list_rr s = [] then Inl CheckFailed
      else if advanceAfter_rr s \<le> current_rr s then
        (case nextIt_rr s of
           None \<Rightarrow> Inl InvalidIterator
         | Some a \<Rightarrow>
            (let nx = list_next a (list_rr s)
             in Inr (s\<lparr>nextIt_rr := (if nx = None then list_begin (list_rr s) else nx),
                       current_rr := 0\<rparr>)))
      else Inr s)"

definition consume :: "u64 option \<Rightarrow> RoundRobin \<Rightarrow> rr_abort + RoundRobin" where
  "consume bytes s =
     maybeAdvance
       (if advanceType_rr s = Bytes
        then s\<lparr>current_rr := current_rr s + (case bytes of None \<Rightarrow> 0 | Some b \<Rightarrow> b)\<rparr>
        else s\<lparr>current_rr := current_rr s + 1\<rparr>)"

definition getNext :: "u64 option \<Rightarrow> RoundRobin \<Rightarrow> rr_abort + (Identifier \<times> RoundRobin)" where
  "getNext bytes s =
     (if list_rr s = [] then Inl CheckFailed
      else case list_deref (list_rr s) (nextIt_rr s) of
             None \<Rightarrow> Inl InvalidIterator
           | Some ret \<Rightarrow>
              (case consume bytes s of Inl e \<Rightarrow> Inl e | Inr s' \<Rightarrow> Inr (ret, s')))"

definition peekNext :: "RoundRobin \<Rightarrow> rr_abort + Identifier" where
  "peekNext s =
     (if list_rr s = [] then Inl CheckFailed
      else case list_deref (list_rr s) (nextIt_rr s) of
             None \<Rightarrow> Inl InvalidIterator
           | Some ret \<Rightarrow> Inr ret)"

definition RoundRobin_clear :: "RoundRobin \<Rightarrow> RoundRobin" where
  "RoundRobin_clear s =
     (let s1 = s\<lparr>list_rr := []\<rparr>;
          s2 = (if useIndexMap_rr s1
                then s1\<lparr>indexMap_rr := Map.empty, useIndexMap_rr := False\<rparr> else s1)
      in s2\<lparr>nextIt_rr := None, current_rr := 0\<rparr>)"

text \<open>
  A newly constructed scheduler: no elements, \<^verbatim>\<open>nextIt_\<close> at \<^verbatim>\<open>end()\<close>, no index and a zero
  counter.  The member initialisers of the advance mode and threshold are in the class
  declaration, so they are parameters here.
\<close>

definition RoundRobin_new :: "AdvanceType \<Rightarrow> u64 \<Rightarrow> RoundRobin" where
  "RoundRobin_new t n =
     \<lparr>list_rr = [], nextIt_rr = None, indexMap_rr = Map.empty, advanceType_rr = t,
      advanceAfter_rr = n, current_rr = 0, useIndexMap_rr = False, fresh_rr = 0\<rparr>"

subsection \<open>Traces of scheduler calls\<close>

datatype rr_op =
    Insert Identifier
  | Erase Identifier
  | AdvanceAfterNext u64
  | AdvanceAfterBytes u64
  | GetNext "u64 option"
  | PeekNext
  | Clear

datatype rr_out = Done | Erased bool | Next Identifier

definition rr_step :: "rr_op \<Rightarrow> RoundRobin \<Rightarrow> rr_abort + (rr_out \<times> RoundRobin)" where
  "rr_step c s =
     (case c of
        Insert v \<Rightarrow> (case RoundRobin_insert v s of Inl e \<Rightarrow> Inl e | Inr s' \<Rightarrow> Inr (Done, s'))
      | Erase v \<Rightarrow> (case RoundRobin_erase v s of (b, s') \<Rightarrow> Inr (Erased b, s'))
      | AdvanceAfterNext n \<Rightarrow> Inr (Done, advanceAfterNext n s)
      | AdvanceAfterBytes n \<Rightarrow> Inr (Done, advanceAfterBytes n s)
      | GetNext b \<Rightarrow> (case getNext b s of Inl e \<Rightarrow> Inl e | Inr (v, s') \<Rightarrow> Inr (Next v, s'))
      | PeekNext \<Rightarrow> (case peekNext s of Inl e \<Rightarrow> Inl e | Inr v \<Rightarrow> Inr (Next v, s))
      | Clear \<Rightarrow> Inr (Done, RoundRobin_clear s))"

text \<open>
  Running a trace in a build with assertions: the results of the calls made before the first
  abort, and the scheduler at the end (or the abort).
\<close>

fun rr_run :: "rr_op list \<Rightarrow> RoundRobin \<Rightarrow> rr_out list \<times> (rr_abort + RoundRobin)" where
  "rr_run [] s = ([], Inr s)"
| "rr_run (c # cs) s =
     (case rr_step c s of
        Inl e \<Rightarrow> ([], Inl e)
      | Inr (out, s') \<Rightarrow> (out # fst (rr_run cs s'), snd (rr_run cs s')))"

text \<open>The same in a build without assertions: only \<^verbatim>\<open>insert\<close> differs.\<close>

definition rr_step_NDEBUG :: "rr_op \<Rightarrow> RoundRobin \<Rightarrow> rr_abort + (rr_out \<times> RoundRobin)" where
  "rr_step_NDEBUG c s =
     (case c of
        Insert v \<Rightarrow> Inr (Done, RoundRobin_insert_NDEBUG v s)
      | Erase v \<Rightarrow> rr_step c s
      | AdvanceAfterNext n \<Rightarrow> rr_step c s
      | AdvanceAfterBytes n \<Rightarrow> rr_step c s
      | GetNext b \<Rightarrow> rr_step c s
      | PeekNext \<Rightarrow> rr_step c s
      | Clear \<Rightarrow> rr_step c s)"

fun rr_run_NDEBUG :: "rr_op list \<Rightarrow> RoundRobin \<Rightarrow> rr_out list \<times> (rr_abort + RoundRobin)" where
  "rr_run_NDEBUG [] s = ([], Inr s)"
| "rr_run_NDEBUG (c # cs) s =
     (case rr_step_NDEBUG c s of
        Inl e \<Rightarrow> ([], Inl e)
      | Inr (out, s') \<Rightarrow> (out # fst (rr_run_NDEBUG cs s'), snd (rr_run_NDEBUG cs s')))"

text \<open>
  The contract of \<^verbatim>\<open>insert\<close> on a trace: no call inserts an identifier that is in the scheduler at
  that moment.  The second argument lists the identifiers in the scheduler before the trace.
\<close>

fun no_duplicate_inserts :: "rr_op list \<Rightarrow> Identifier list \<Rightarrow> bool" where
  "no_duplicate_inserts [] xs = True"
| "no_duplicate_inserts (Insert v # cs) xs = (v \<notin> set xs \<and> no_duplicate_inserts cs (v # xs))"
| "no_duplicate_inserts (Erase v # cs) xs = no_duplicate_inserts cs (removeAll v xs)"
| "no_duplicate_inserts (Clear # cs) xs = no_duplicate_inserts cs []"
| "no_duplicate_inserts (AdvanceAfterNext n # cs) xs = no_duplicate_inserts cs xs"
| "no_duplicate_inserts (AdvanceAfterBytes n # cs) xs = no_duplicate_inserts cs xs"
| "no_duplicate_inserts (GetNext b # cs) xs = no_duplicate_inserts cs xs"
| "no_duplicate_inserts (PeekNext # cs) xs = no_duplicate_inserts cs xs"

subsection \<open>The scheduler of the spec, without the side table\<close>

text \<open>
  Section 4.4 of the spec describes the scheduler as a cyclic sequence of identifiers with a
  cursor and a counter.  Here the sequence is split at the cursor: \<open>seen\<close> holds the
  identifiers in front of the cursor, \<open>todo\<close> the identifier under the cursor and those behind
  it.  There are no nodes, no iterators and no index.
\<close>

record rr_view =
  seen :: "Identifier list"
  todo :: "Identifier list"
  mode :: AdvanceType
  threshold :: u64
  counter :: u64

definition spec_new :: "AdvanceType \<Rightarrow> u64 \<Rightarrow> rr_view" where
  "spec_new t n = \<lparr>seen = [], todo = [], mode = t, threshold = n, counter = 0\<rparr>"

definition spec_advanceAfterNext :: "u64 \<Rightarrow> rr_view \<Rightarrow> rr_view" where
  "spec_advanceAfterNext n a =
     a\<lparr>counter := (if mode a = Bytes then 0 else counter a), mode := Nexts, threshold := n\<rparr>"

definition spec_advanceAfterBytes :: "u64 \<Rightarrow> rr_view \<Rightarrow> rr_view" where
  "spec_advanceAfterBytes n a =
     a\<lparr>counter := (if mode a = Nexts then 0 else counter a), mode := Bytes, threshold := n\<rparr>"

text \<open>
  "erase(id): if present, remove; erasing the element at the cursor advances the cursor and
  resets current.  If the current cursor erases past the end, it wraps to begin."  An
  identifier in front of the cursor is searched backwards from the cursor, one behind it
  forwards.
\<close>

definition spec_erase :: "Identifier \<Rightarrow> rr_view \<Rightarrow> bool \<times> rr_view" where
  "spec_erase v a =
     (case todo a of
        [] \<Rightarrow> (False, a)
      | c # rest \<Rightarrow>
          if c = v then
            (True, (if rest = [] then a\<lparr>seen := [], todo := seen a\<rparr> else a\<lparr>todo := rest\<rparr>)
                     \<lparr>counter := 0\<rparr>)
          else if v \<in> set (seen a) then
            (True, a\<lparr>seen := rev (remove1 v (rev (seen a)))\<rparr>)
          else if v \<in> set rest then (True, a\<lparr>todo := c # remove1 v rest\<rparr>)
          else (False, a))"

text \<open>
  "Insertion is always at the current cursor position (so the newly inserted id services last
  in this cycle); the insert contract is that the caller never inserts a duplicate."
\<close>

definition spec_insert :: "Identifier \<Rightarrow> rr_view \<Rightarrow> rr_abort + rr_view" where
  "spec_insert v a =
     (if v \<in> set (seen a) \<or> v \<in> set (todo a) then Inl DuplicateValue
      else if todo a = [] then Inr (a\<lparr>todo := [v]\<rparr>)
      else Inr (a\<lparr>seen := seen a @ [v]\<rparr>))"

text \<open>
  "getNext(bytes?) returns *nextIt, then consume(bytes) increments current by bytes (Bytes
  mode) or 1 (Nexts mode); on reaching advanceAfter, cursor advances (wrapping) and current
  resets."
\<close>

definition spec_getNext :: "u64 option \<Rightarrow> rr_view \<Rightarrow> rr_abort + (Identifier \<times> rr_view)" where
  "spec_getNext bytes a =
     (case todo a of
        [] \<Rightarrow> Inl CheckFailed
      | c # rest \<Rightarrow>
         (let n = (if mode a = Bytes
                   then counter a + (case bytes of None \<Rightarrow> 0 | Some b \<Rightarrow> b)
                   else counter a + 1)
          in if threshold a \<le> n then
               Inr (c, (if rest = [] then a\<lparr>seen := [], todo := seen a @ [c]\<rparr>
                        else a\<lparr>seen := seen a @ [c], todo := rest\<rparr>)\<lparr>counter := 0\<rparr>)
             else Inr (c, a\<lparr>counter := n\<rparr>)))"

definition spec_peekNext :: "rr_view \<Rightarrow> rr_abort + Identifier" where
  "spec_peekNext a = (case todo a of [] \<Rightarrow> Inl CheckFailed | c # rest \<Rightarrow> Inr c)"

definition spec_clear :: "rr_view \<Rightarrow> rr_view" where
  "spec_clear a = a\<lparr>seen := [], todo := [], counter := 0\<rparr>"

definition spec_step :: "rr_op \<Rightarrow> rr_view \<Rightarrow> rr_abort + (rr_out \<times> rr_view)" where
  "spec_step c a =
     (case c of
        Insert v \<Rightarrow> (case spec_insert v a of Inl e \<Rightarrow> Inl e | Inr a' \<Rightarrow> Inr (Done, a'))
      | Erase v \<Rightarrow> (case spec_erase v a of (b, a') \<Rightarrow> Inr (Erased b, a'))
      | AdvanceAfterNext n \<Rightarrow> Inr (Done, spec_advanceAfterNext n a)
      | AdvanceAfterBytes n \<Rightarrow> Inr (Done, spec_advanceAfterBytes n a)
      | GetNext b \<Rightarrow> (case spec_getNext b a of Inl e \<Rightarrow> Inl e | Inr (v, a') \<Rightarrow> Inr (Next v, a'))
      | PeekNext \<Rightarrow> (case spec_peekNext a of Inl e \<Rightarrow> Inl e | Inr v \<Rightarrow> Inr (Next v, a))
      | Clear \<Rightarrow> Inr (Done, spec_clear a))"

fun spec_run :: "rr_op list \<Rightarrow> rr_view \<Rightarrow> rr_out list \<times> (rr_abort + rr_view)" where
  "spec_run [] a = ([], Inr a)"
| "spec_run (c # cs) a =
     (case spec_step c a of
        Inl e \<Rightarrow> ([], Inl e)
      | Inr (out, a') \<Rightarrow> (out # fst (spec_run cs a'), snd (spec_run cs a')))"

subsection \<open>What a scheduler state shows, and when it is well formed\<close>

text \<open>
  The observable part of a scheduler state: the identifiers in list order, split at the
  cursor, with the advance mode, threshold and counter.  Nodes, the index and its flag are not
  part of it.
\<close>

definition rr_view_of :: "RoundRobin \<Rightarrow> rr_view" where
  "rr_view_of s =
     \<lparr>seen = map snd (nodes_before (nextIt_rr s) (list_rr s)),
      todo = map snd (dropWhile (\<lambda>x. Some (fst x) \<noteq> nextIt_rr s) (list_rr s)),
      mode = advanceType_rr s, threshold = advanceAfter_rr s, counter = current_rr s\<rparr>"

text \<open>
  The representation invariant: nodes and identifiers occur once, the cursor is at a node of
  the list (at \<^verbatim>\<open>end()\<close> only when the list is empty), node identities handed out so far are
  below the counter, and the index, when in use, maps exactly the identifiers of the list to
  their nodes (it is empty when not in use).
\<close>

definition rr_inv :: "RoundRobin \<Rightarrow> bool" where
  "rr_inv s =
     (distinct (map fst (list_rr s)) \<and> distinct (map snd (list_rr s)) \<and>
      (nextIt_rr s = None \<and> list_rr s = [] \<or>
       nextIt_rr s \<in> Some ` fst ` set (list_rr s)) \<and>
      (\<forall>x \<in> set (list_rr s). fst x < fresh_rr s) \<and>
      (if useIndexMap_rr s
       then (\<forall>v it. indexMap_rr s v = Some it \<longleftrightarrow>
                      (\<exists>a. it = Some a \<and> (a, v) \<in> set (list_rr s)))
       else indexMap_rr s = Map.empty))"

section \<open>Stream send state machine (quic/state/stream/StreamSendHandlers.cpp)\<close>

type_synonym StreamId = u64
type_synonym ApplicationErrorCode = u64

datatype StreamSendState = Open | ResetSent | Closed | Invalid

datatype StreamRecvState = RecvOpen | RecvResetRecvd | RecvClosed | RecvInvalid

datatype QuicNodeType = Client | Server

datatype TransportErrorCode =
    INTERNAL_ERROR
  | FLOW_CONTROL_ERROR
  | STREAM_LIMIT_ERROR
  | STREAM_STATE_ERROR
  | FRAME_ENCODING_ERROR
  | TRANSPORT_PARAMETER_ERROR
  | PROTOCOL_VIOLATION

datatype QuicError = QuicError (code: TransportErrorCode) (message: string)

text \<open>\<^verbatim>\<open>folly::Expected<folly::Unit, QuicError>\<close>.\<close>

type_synonym Expected = "QuicError + unit"

record StreamBuffer =
  buf_offset :: u64
  buf_chainLength :: u64
  buf_eof :: bool

record WriteBufferMeta =
  meta_offset :: u64
  meta_length :: u64
  meta_eof :: bool

record WriteStreamFrame =
  frame_streamId :: StreamId
  frame_offset :: u64
  frame_len :: u64
  frame_fin :: bool
  fromBufMeta :: bool

record StopSendingFrame =
  ss_streamId :: StreamId
  ss_errorCode :: ApplicationErrorCode

record QuicStreamManager =
  stopSendingStreams :: "StreamId \<rightharpoonup> ApplicationErrorCode"
  deliverableStreams :: "StreamId set"
  closedStreams :: "StreamId set"

text \<open>The part of the connection that the stream handlers reach through \<^verbatim>\<open>stream.conn\<close>.\<close>

record StreamConn =
  nodeType :: QuicNodeType
  streamManager :: QuicStreamManager
  pendingResets :: "StreamId \<rightharpoonup> ApplicationErrorCode \<times> u64 option"

record QuicStreamState =
  stream_id :: StreamId
  stream_conn :: StreamConn
  sendState :: StreamSendState
  recvState :: StreamRecvState
  pendingWrites :: "StreamBuffer list"
  retransmissionBuffer :: "u64 \<rightharpoonup> StreamBuffer"
  retransmissionBufMetas :: "u64 \<rightharpoonup> WriteBufferMeta"
  ackedIntervals :: "(u64 \<times> u64) list"
  finalWriteOffset :: "u64 option"
  appErrorCodeToPeer :: "ApplicationErrorCode option"
  reliableSizeToPeer :: "u64 option"
  minReliableSizeAcked :: "u64 option"

subsection \<open>Helpers of the handlers that live in other files\<close>

text \<open>
  Modelled from the spec: \<^verbatim>\<open>streamStateToString\<close> is not under src/; it renders the send state
  by its name (section 3 of the spec lists the names).
\<close>

definition streamStateToString :: "StreamSendState \<Rightarrow> string" where
  "streamStateToString st =
     (case st of Open \<Rightarrow> ''Open'' | ResetSent \<Rightarrow> ''ResetSent'' | Closed \<Rightarrow> ''Closed''
      | Invalid \<Rightarrow> ''Invalid'')"

text \<open>
  Modelled from the spec: \<^verbatim>\<open>isBidirectionalStream\<close>, \<^verbatim>\<open>isUnidirectionalStream\<close>,
  \<^verbatim>\<open>isLocalStream\<close> and \<^verbatim>\<open>isSendingStream\<close> (QuicStreamUtilities) are not under src/.  The
  stream id "encodes role+direction per QUIC": bit 0 is the initiator (0 the client, 1 the
  server), bit 1 is set for unidirectional streams.
\<close>

definition isUnidirectionalStream :: "StreamId \<Rightarrow> bool" where
  "isUnidirectionalStream i = bit i 1"

definition isBidirectionalStream :: "StreamId \<Rightarrow> bool" where
  "isBidirectionalStream i = (\<not> isUnidirectionalStream i)"

definition isLocalStream :: "QuicNodeType \<Rightarrow> StreamId \<Rightarrow> bool" where
  "isLocalStream nt i = (case nt of Client \<Rightarrow> \<not> bit i 0 | Server \<Rightarrow> bit i 0)"

definition isSendingStream :: "QuicNodeType \<Rightarrow> StreamId \<Rightarrow> bool" where
  "isSendingStream nt i = (isUnidirectionalStream i \<and> isLocalStream nt i)"

text \<open>
  Modelled from the spec: the stream manager's \<^verbatim>\<open>addStopSending\<close>, \<^verbatim>\<open>addDeliverable\<close> and
  \<^verbatim>\<open>addClosed\<close> are not under src/.  The first "enqueues a pending reset with the peer-supplied
  error code", the others add the stream to the deliverable and to the closed set.
\<close>

definition addStopSending :: "StreamId \<Rightarrow> ApplicationErrorCode \<Rightarrow> QuicStreamState \<Rightarrow> QuicStreamState" where
  "addStopSending i e s =
     s\<lparr>stream_conn := (stream_conn s)\<lparr>streamManager := (streamManager (stream_conn s))
          \<lparr>stopSendingStreams := (stopSendingStreams (streamManager (stream_conn s)))(i \<mapsto> e)\<rparr>\<rparr>\<rparr>"

definition addDeliverable :: "StreamId \<Rightarrow> QuicStreamState \<Rightarrow> QuicStreamState" where
  "addDeliverable i s =
     s\<lparr>stream_conn := (stream_conn s)\<lparr>streamManager := (streamManager (stream_conn s))
          \<lparr>deliverableStreams := insert i (deliverableStreams (streamManager (stream_conn s)))\<rparr>\<rparr>\<rparr>"

definition addClosed :: "StreamId \<Rightarrow> QuicStreamState \<Rightarrow> QuicStreamState" where
  "addClosed i s =
     s\<lparr>stream_conn := (stream_conn s)\<lparr>streamManager := (streamManager (stream_conn s))
          \<lparr>closedStreams := insert i (closedStreams (streamManager (stream_conn s)))\<rparr>\<rparr>\<rparr>"

text \<open>
  Modelled from the spec: \<^verbatim>\<open>QuicStreamState::inTerminalStates\<close> is not under src/.  Both
  directions are terminal: each of the send and the receive state is Closed or Invalid.
\<close>

definition inTerminalStates :: "QuicStreamState \<Rightarrow> bool" where
  "inTerminalStates s =
     ((sendState s = Closed \<or> sendState s = Invalid) \<and>
      (recvState s = RecvClosed \<or> recvState s = RecvInvalid))"

text \<open>
  Modelled from the spec: \<^verbatim>\<open>QuicStreamState::updateAckedIntervals\<close> is not under src/.  It
  "updates acked intervals" with the acknowledged chunk: the bytes from \<open>offset\<close> on, \<open>len\<close> of
  them, and with a FIN the position after the last byte as well; nothing for an empty chunk
  without FIN.
\<close>

definition updateAckedIntervals :: "u64 \<Rightarrow> u64 \<Rightarrow> bool \<Rightarrow> QuicStreamState \<Rightarrow> QuicStreamState" where
  "updateAckedIntervals off len eof s =
     (if \<not> eof \<and> len = 0 then s
      else s\<lparr>ackedIntervals :=
               (off, off + len - (if eof then 0 else 1)) # ackedIntervals s\<rparr>)"

text \<open>
  Modelled from the spec: \<^verbatim>\<open>QuicStreamState::allBytesAckedTill\<close> is not under src/.  All bytes
  through \<open>offset\<close> have been acked: every position from 0 to \<open>offset\<close> lies in an acked
  interval.
\<close>

definition allBytesAckedTill :: "QuicStreamState \<Rightarrow> u64 \<Rightarrow> bool" where
  "allBytesAckedTill s off =
     (\<forall>p \<in> {0 .. unat off}. \<exists>iv \<in> set (ackedIntervals s). unat (fst iv) \<le> p \<and> p \<le> unat (snd iv))"

text \<open>
  Modelled from the spec: \<^verbatim>\<open>allBytesTillFinAcked\<close> (QuicStreamFunctions) is not under src/.
  "All bytes through FIN are acked": a final write offset is known and every position through
  it is acked.
\<close>

definition allBytesTillFinAcked :: "QuicStreamState \<Rightarrow> bool" where
  "allBytesTillFinAcked s =
     (case finalWriteOffset s of None \<Rightarrow> False | Some f \<Rightarrow> allBytesAckedTill s f)"

text \<open>
  Modelled from the spec: \<^verbatim>\<open>resetQuicStream\<close> (QuicStreamFunctions) is not under src/.  Of its
  effects the spec names the reliable size that goes to the peer with the reset
  (\<^verbatim>\<open>reliableSizeToPeer\<close>); its flow-control and buffer bookkeeping, and the error that
  bookkeeping may return, are outside this model.
\<close>

definition resetQuicStream ::
  "QuicStreamState \<Rightarrow> ApplicationErrorCode \<Rightarrow> u64 option \<Rightarrow> Expected \<times> QuicStreamState" where
  "resetQuicStream s e reliableSize = (Inr (), s\<lparr>reliableSizeToPeer := reliableSize\<rparr>)"

text \<open>
  Modelled from the spec: \<^verbatim>\<open>appendPendingStreamReset\<close> is not under src/.  It "enqueues
  RESET_STREAM or RESET_STREAM_AT" for the stream, with the error code and the reliable size.
\<close>

definition appendPendingStreamReset ::
  "QuicStreamState \<Rightarrow> ApplicationErrorCode \<Rightarrow> u64 option \<Rightarrow> QuicStreamState" where
  "appendPendingStreamReset s e reliableSize =
     s\<lparr>stream_conn := (stream_conn s)\<lparr>pendingResets := (pendingResets (stream_conn s))(stream_id s \<mapsto> (e, reliableSize))\<rparr>\<rparr>"

subsection \<open>The four handlers\<close>

text \<open>
  A handler returns its \<^verbatim>\<open>Expected\<close> value together with the stream as it leaves it.  A failed
  \<^verbatim>\<open>CHECK\<close> or \<^verbatim>\<open>DCHECK\<close> ends the process: the handler then has no result (\<open>None\<close>).
\<close>

definition invalidTransition :: "StreamSendState \<Rightarrow> QuicError" where
  "invalidTransition st =
     QuicError STREAM_STATE_ERROR (''Invalid transition from state='' @ streamStateToString st)"

definition sendStopSendingSMHandler ::
  "QuicStreamState \<Rightarrow> StopSendingFrame \<Rightarrow> (Expected \<times> QuicStreamState) option" where
  "sendStopSendingSMHandler stream frame =
     (case sendState stream of
        Open \<Rightarrow>
          (if \<not> (isBidirectionalStream (stream_id stream) \<or>
                  isSendingStream (nodeType (stream_conn stream)) (stream_id stream))
           then None
           else Some (Inr (), addStopSending (stream_id stream) (ss_errorCode frame) stream))
      | Closed \<Rightarrow> Some (Inr (), stream)
      | ResetSent \<Rightarrow> Some (Inr (), stream)
      | Invalid \<Rightarrow> Some (Inl (invalidTransition (sendState stream)), stream))"

definition sendRstSMHandler ::
  "QuicStreamState \<Rightarrow> ApplicationErrorCode \<Rightarrow> u64 option \<Rightarrow> (Expected \<times> QuicStreamState) option" where
  "sendRstSMHandler stream errorCode reliableSize =
     (case sendState stream of
        Open \<Rightarrow>
          (if (case (reliableSize, reliableSizeToPeer stream) of
                 (Some r, Some p) \<Rightarrow> \<not> r \<le> p | _ \<Rightarrow> False) then None
           else if (case appErrorCodeToPeer stream of Some c \<Rightarrow> c \<noteq> errorCode | None \<Rightarrow> False)
           then None
           else if reliableSizeToPeer stream = None \<and> sendState stream = ResetSent \<and>
                   \<not> (reliableSize = None \<or> reliableSize = Some 0) then None
           else
             (let s1 = stream\<lparr>appErrorCodeToPeer := Some errorCode\<rparr>;
                  resetResult = resetQuicStream s1 errorCode reliableSize
              in case fst resetResult of
                   Inl e \<Rightarrow> Some (Inl e, snd resetResult)
                 | Inr _ \<Rightarrow>
                    Some (Inr (),
                      (appendPendingStreamReset (snd resetResult) errorCode reliableSize)
                        \<lparr>sendState := ResetSent\<rparr>)))
      | Closed \<Rightarrow> Some (Inr (), stream)
      | ResetSent \<Rightarrow> Some (Inr (), stream)
      | Invalid \<Rightarrow> Some (Inl (invalidTransition (sendState stream)), stream))"

text \<open>
  The first part of the Open/ResetSent case of \<^verbatim>\<open>sendAckSMHandler\<close>: the acked chunk is looked
  up by the frame's offset in the retransmission buffer of the frame's kind, checked against
  the frame, recorded in the acked intervals and erased.
\<close>

definition ackedChunkCleanup :: "QuicStreamState \<Rightarrow> WriteStreamFrame \<Rightarrow> QuicStreamState option" where
  "ackedChunkCleanup stream ackedFrame =
     (if \<not> fromBufMeta ackedFrame then
        (case retransmissionBuffer stream (frame_offset ackedFrame) of
           None \<Rightarrow> Some stream
         | Some b \<Rightarrow>
            (if frame_offset ackedFrame \<noteq> buf_offset b \<or> frame_len ackedFrame \<noteq> buf_chainLength b \<or>
                frame_fin ackedFrame \<noteq> buf_eof b then None
             else Some ((updateAckedIntervals (buf_offset b) (buf_chainLength b) (buf_eof b) stream)
                    \<lparr>retransmissionBuffer :=
                       (retransmissionBuffer stream)(frame_offset ackedFrame := None)\<rparr>)))
      else
        (case retransmissionBufMetas stream (frame_offset ackedFrame) of
           None \<Rightarrow> Some stream
         | Some b \<Rightarrow>
            (if frame_offset ackedFrame \<noteq> meta_offset b \<or> frame_len ackedFrame \<noteq> meta_length b \<or>
                frame_fin ackedFrame \<noteq> meta_eof b then None
             else Some ((updateAckedIntervals (meta_offset b) (meta_length b) (meta_eof b) stream)
                    \<lparr>retransmissionBufMetas :=
                       (retransmissionBufMetas stream)(frame_offset ackedFrame := None)\<rparr>))))"

definition allReliableDataDelivered :: "QuicStreamState \<Rightarrow> bool" where
  "allReliableDataDelivered s =
     (case minReliableSizeAcked s of
        None \<Rightarrow> False
      | Some m \<Rightarrow> m = 0 \<or> allBytesAckedTill s (m - 1))"

definition sendAckSMHandler ::
  "QuicStreamState \<Rightarrow> WriteStreamFrame \<Rightarrow> (Expected \<times> QuicStreamState) option" where
  "sendAckSMHandler stream ackedFrame =
     (case sendState stream of
        Closed \<Rightarrow>
          (if retransmissionBuffer stream \<noteq> Map.empty \<or> pendingWrites stream \<noteq> [] then None
           else Some (Inr (), stream))
      | Invalid \<Rightarrow> Some (Inl (invalidTransition (sendState stream)), stream)
      | _ \<Rightarrow>
          (case ackedChunkCleanup stream ackedFrame of
             None \<Rightarrow> None
           | Some s1 \<Rightarrow>
              (let s2 = addDeliverable (stream_id s1) s1
               in if allBytesTillFinAcked s2 \<or> allReliableDataDelivered s2 then
                    (let s3 = s2\<lparr>sendState := Closed\<rparr>
                     in Some (Inr (), if inTerminalStates s3 then addClosed (stream_id s3) s3 else s3))
                  else Some (Inr (), s2))))"

definition sendRstAckSMHandler ::
  "QuicStreamState \<Rightarrow> u64 option \<Rightarrow> (Expected \<times> QuicStreamState) option" where
  "sendRstAckSMHandler stream reliableSize =
     (case sendState stream of
        ResetSent \<Rightarrow>
          (let r0 = (case reliableSize of None \<Rightarrow> 0 | Some r \<Rightarrow> r);
               m = (case minReliableSizeAcked stream of None \<Rightarrow> r0 | Some old \<Rightarrow> min old r0);
               s1 = stream\<lparr>minReliableSizeAcked := Some m\<rparr>
           in if m = 0 \<or> allBytesAckedTill s1 (m - 1) then
                (let s2 = s1\<lparr>sendState := Closed\<rparr>
                 in Some (Inr (), if inTerminalStates s2 then addClosed (stream_id s2) s2 else s2))
              else Some (Inr (), s1))
      | Closed \<Rightarrow> Some (Inr (), stream)
      | Open \<Rightarrow> Some (Inl (invalidTransition (sendState stream)), stream)
      | Invalid \<Rightarrow> Some (Inl (invalidTransition (sendState stream)), stream))"

text \<open>
  The \<^verbatim>\<open>CHECK_EQ\<close>s of \<^verbatim>\<open>sendAckSMHandler\<close>: a chunk stored under the frame's offset has the
  frame's offset, length and FIN flag.
\<close>

definition ackedFrameMatches :: "QuicStreamState \<Rightarrow> WriteStreamFrame \<Rightarrow> bool" where
  "ackedFrameMatches s f =
     (if fromBufMeta f then
        (case retransmissionBufMetas s (frame_offset f) of
           None \<Rightarrow> True
         | Some b \<Rightarrow> frame_offset f = meta_offset b \<and> frame_len f = meta_length b \<and>
                     frame_fin f = meta_eof b)
      else
        (case retransmissionBuffer s (frame_offset f) of
           None \<Rightarrow> True
         | Some b \<Rightarrow> frame_offset f = buf_offset b \<and> frame_len f = buf_chainLength b \<and>
                     frame_fin f = buf_eof b))"

text \<open>The chunk the frame acknowledges, if it is still buffered: offset, length, FIN flag.\<close>

definition ackedChunk :: "QuicStreamState \<Rightarrow> WriteStreamFrame \<Rightarrow> (u64 \<times> u64 \<times> bool) option" where
  "ackedChunk s f =
     (if fromBufMeta f
      then map_option (\<lambda>b. (meta_offset b, meta_length b, meta_eof b))
             (retransmissionBufMetas s (frame_offset f))
      else map_option (\<lambda>b. (buf_offset b, buf_chainLength b, buf_eof b))
             (retransmissionBuffer s (frame_offset f)))"


section \<open>Client connection state (quic/client/state/ClientStateMachine.cpp)\<close>

type_synonym u32 = "32 word"
type_synonym PacketNum = u64
type_synonym ConnectionId = "u8 list"
type_synonym StatelessResetToken = "u8 list"
type_synonym SocketAddress = "u8 list \<times> nat"
type_synonym ExtendedAckFeatureMaskType = u8

text \<open>Shared or owned objects that the functions of this file only hand on.\<close>

type_synonym handle = nat

datatype QuicVersion =
    MVFST | QUIC_V1 | QUIC_V1_ALIAS | QUIC_V1_ALIAS2 | MVFST_PRIMING | OtherVersion u32

datatype TransportParameterId =
    original_destination_connection_id
  | idle_timeout
  | stateless_reset_token
  | max_packet_size
  | initial_max_data
  | initial_max_stream_data_bidi_local
  | initial_max_stream_data_bidi_remote
  | initial_max_stream_data_uni
  | initial_max_streams_bidi
  | initial_max_streams_uni
  | ack_delay_exponent
  | active_connection_id_limit
  | initial_source_connection_id
  | max_datagram_frame_size
  | min_ack_delay
  | stream_groups_enabled
  | knob_frames_supported
  | ack_receive_timestamps_enabled
  | max_receive_timestamps_per_ack
  | receive_timestamps_exponent
  | reliable_stream_reset
  | extended_ack_features

datatype PacketNumberSpace = Initial | Handshake | AppData

datatype ProtectionType = ProtInitial | ProtHandshake | ZeroRtt | KeyPhaseZero | KeyPhaseOne

datatype CongestionControlType = Cubic | NewReno | Copa | BBR | NoCongestionControl

record AckReceiveTimestampsConfig =
  cfg_maxReceiveTimestampsPerAck :: u64
  cfg_receiveTimestampsExponent :: u64

record TransportSettings =
  canIgnorePathMTU :: bool
  advertisedInitialUniStreamFlowControlWindow :: u64
  advertisedInitialBidiLocalStreamFlowControlWindow :: u64
  advertisedInitialBidiRemoteStreamFlowControlWindow :: u64
  maxReceiveTimestampsPerAckStored :: u64
  maybeAckReceiveTimestampsConfigSentToPeer :: "AckReceiveTimestampsConfig option"
  advertisedExtendedAckFeatures :: u64
  maxPacketsToBuffer :: u32

record ConnFlowControlState =
  peerAdvertisedMaxOffset :: u64
  peerAdvertisedInitialMaxStreamOffsetBidiLocal :: u64
  peerAdvertisedInitialMaxStreamOffsetBidiRemote :: u64
  peerAdvertisedInitialMaxStreamOffsetUni :: u64
  sumCurWriteOffset :: u64

record AckState =
  nextPacketNum :: PacketNum
  largestRecvdPacketNum :: "PacketNum option"

text \<open>
  The Initial and Handshake ack states are reached through pointers
  (\<^verbatim>\<open>ackStates.initialAckState->nextPacketNum\<close>), the AppData one is a member.
\<close>

record AckStates =
  initialAckState :: "AckState option"
  handshakeAckState :: "AckState option"
  appDataAckState :: AckState

record OutstandingPacket =
  op_packetNumberSpace :: PacketNumberSpace
  op_protectionType :: ProtectionType
  op_packetNum :: PacketNum
  declaredLost :: bool

record Outstandings =
  packets :: "OutstandingPacket list"
  packetCount :: "PacketNumberSpace \<Rightarrow> u64"

record LossState =
  srtt :: u64
  rtxCount :: u64

record CodecParameters =
  cp_peerAckDelayExponent :: u64
  cp_version :: QuicVersion
  cp_maybeAckReceiveTimestampsConfig :: "AckReceiveTimestampsConfig option"
  cp_extendedAckFeatures :: u64

record QuicReadCodec =
  rc_nodeType :: QuicNodeType
  rc_clientConnectionId :: "ConnectionId option"
  rc_serverConnectionId :: "ConnectionId option"
  rc_codecParameters :: "CodecParameters option"

record CongestionController =
  cc_type :: CongestionControlType
  cc_bytesInFlight :: u64

text \<open>
  The stream manager as this file uses it: the two local stream limits and, for each stream
  that exists, its id and the flow-control offset the peer allows on it.
\<close>

record ClientStreamManager =
  maxLocalBidirectionalStreams :: u64
  maxLocalUnidirectionalStreams :: u64
  streamWindows :: "(StreamId \<times> u64) list"

record QuicClientConnectionState =
  handshakeFactory :: handle
  observerContainer :: handle
  qLogger :: handle
  clientConnectionId :: "ConnectionId option"
  initialDestinationConnectionId :: "ConnectionId option"
  originalDestinationConnectionId :: "ConnectionId option"
  serverConnectionId :: "ConnectionId option"
  ackStates :: AckStates
  version :: "QuicVersion option"
  originalVersion :: "QuicVersion option"
  originalPeerAddress :: SocketAddress
  peerAddress :: SocketAddress
  udpSendPacketLen :: u64
  supportedVersions :: "QuicVersion list"
  transportSettings :: TransportSettings
  initialWriteCipher :: "handle option"
  readCodec :: QuicReadCodec
  peerAckDelayExponent :: u64
  earlyDataAppParamsValidator :: "handle option"
  earlyDataAppParamsGetter :: "handle option"
  happyEyeballsState :: handle
  flowControlState :: ConnFlowControlState
  bufAccessor :: "handle option"
  pendingOneRttData :: "handle list"
  congestionControllerFactory :: "handle option"
  congestionController :: "CongestionController option"
  outstandings :: Outstandings
  lossState :: LossState
  conn_nodeType :: QuicNodeType
  conn_streamManager :: ClientStreamManager
  peerIdleTimeout :: u64
  peerMinAckDelay :: "u64 option"
  peerActiveConnectionIdLimit :: u64
  statelessResetToken :: "StatelessResetToken option"
  datagramMaxWriteFrameSize :: u64
  peerAdvertisedMaxStreamGroups :: u64
  maybePeerAckReceiveTimestampsConfig :: "AckReceiveTimestampsConfig option"
  peerAdvertisedKnobFrameSupport :: bool
  peerAdvertisedExtendedAckFeatures :: ExtendedAckFeatureMaskType
  peerAdvertisedReliableStreamResetSupport :: bool
  serverInitialParamsSet :: bool
  peerAdvertisedInitialMaxData :: u64
  peerAdvertisedInitialMaxStreamDataBidiLocal :: u64
  peerAdvertisedInitialMaxStreamDataBidiRemote :: u64
  peerAdvertisedInitialMaxStreamDataUni :: u64
  peerAdvertisedInitialMaxStreamsBidi :: u64
  peerAdvertisedInitialMaxStreamsUni :: u64

record CachedServerTransportParameters =
  idleTimeout :: u64
  maxRecvPacketSize :: u64
  initialMaxData :: u64
  initialMaxStreamDataBidiLocal :: u64
  initialMaxStreamDataBidiRemote :: u64
  initialMaxStreamDataUni :: u64
  initialMaxStreamsBidi :: u64
  initialMaxStreamsUni :: u64
  knobFrameSupport :: bool
  ackReceiveTimestampsEnabled :: bool
  maxReceiveTimestampsPerAck :: u64
  receiveTimestampsExponent :: u64
  reliableStreamResetSupport :: bool
  extendedAckFeatures :: ExtendedAckFeatureMaskType

subsection \<open>Caching the server's initial parameters\<close>

text \<open>
  \<^verbatim>\<open>AckReceiveTimestampsConfig{std::min(static_cast<uint8_t>(max), static_cast<uint8_t>(stored)),
  std::max(static_cast<uint8_t>(exponent), static_cast<uint8_t>(0))}\<close>: both values pass
  through \<^verbatim>\<open>uint8_t\<close>.
\<close>

definition mkAckReceiveTimestampsConfig :: "u64 \<Rightarrow> u64 \<Rightarrow> u64 \<Rightarrow> AckReceiveTimestampsConfig" where
  "mkAckReceiveTimestampsConfig maxPerAck stored exponent =
     \<lparr>cfg_maxReceiveTimestampsPerAck = ucast (min (ucast maxPerAck :: u8) (ucast stored :: u8)),
      cfg_receiveTimestampsExponent = ucast (max (ucast exponent :: u8) (0 :: u8))\<rparr>"

definition cacheServerInitialParams ::
  "QuicClientConnectionState \<Rightarrow> u64 \<Rightarrow> u64 \<Rightarrow> u64 \<Rightarrow> u64 \<Rightarrow> u64 \<Rightarrow> u64 \<Rightarrow> bool \<Rightarrow> bool \<Rightarrow>
   u64 \<Rightarrow> u64 \<Rightarrow> bool \<Rightarrow> ExtendedAckFeatureMaskType \<Rightarrow> QuicClientConnectionState" where
  "cacheServerInitialParams conn maxData maxStreamDataBidiLocal maxStreamDataBidiRemote
     maxStreamDataUni maxStreamsBidi maxStreamUni knobFrameSupport' ackReceiveTimestampsEnabled'
     maxReceiveTimestampsPerAck' receiveTimestampsExponent' reliableStreamResetSupport'
     extendedAckFeatures' =
     conn\<lparr>serverInitialParamsSet := True,
          peerAdvertisedInitialMaxData := maxData,
          peerAdvertisedInitialMaxStreamDataBidiLocal := maxStreamDataBidiLocal,
          peerAdvertisedInitialMaxStreamDataBidiRemote := maxStreamDataBidiRemote,
          peerAdvertisedInitialMaxStreamDataUni := maxStreamDataUni,
          peerAdvertisedInitialMaxStreamsBidi := maxStreamsBidi,
          peerAdvertisedInitialMaxStreamsUni := maxStreamUni,
          peerAdvertisedKnobFrameSupport := knobFrameSupport',
          peerAdvertisedReliableStreamResetSupport := reliableStreamResetSupport',
          maybePeerAckReceiveTimestampsConfig :=
            (if ackReceiveTimestampsEnabled'
             then Some (mkAckReceiveTimestampsConfig maxReceiveTimestampsPerAck'
                          (maxReceiveTimestampsPerAckStored (transportSettings conn))
                          receiveTimestampsExponent')
             else None),
          peerAdvertisedExtendedAckFeatures := extendedAckFeatures'\<rparr>"

text \<open>
  \<^verbatim>\<open>getServerCachedTransportParameters\<close>.  The result starts as a default-constructed
  \<^verbatim>\<open>CachedServerTransportParameters\<close>; the struct's member initialisers are not under src/, so
  that value is the parameter \<open>dflt\<close>.  \<^verbatim>\<open>DCHECK(conn.serverInitialParamsSet_)\<close> ends the process
  when nothing was cached (\<open>None\<close>).
\<close>

definition getServerCachedTransportParameters ::
  "CachedServerTransportParameters \<Rightarrow> QuicClientConnectionState \<Rightarrow>
   CachedServerTransportParameters option" where
  "getServerCachedTransportParameters dflt conn =
     (if \<not> serverInitialParamsSet conn then None
      else
        (let p = dflt\<lparr>idleTimeout := peerIdleTimeout conn,
                      maxRecvPacketSize := udpSendPacketLen conn,
                      initialMaxData := peerAdvertisedInitialMaxData conn,
                      initialMaxStreamDataBidiLocal := peerAdvertisedInitialMaxStreamDataBidiLocal conn,
                      initialMaxStreamDataBidiRemote := peerAdvertisedInitialMaxStreamDataBidiRemote conn,
                      initialMaxStreamDataUni := peerAdvertisedInitialMaxStreamDataUni conn,
                      initialMaxStreamsBidi := peerAdvertisedInitialMaxStreamsBidi conn,
                      initialMaxStreamsUni := peerAdvertisedInitialMaxStreamsUni conn,
                      knobFrameSupport := peerAdvertisedKnobFrameSupport conn,
                      ackReceiveTimestampsEnabled := (maybePeerAckReceiveTimestampsConfig conn \<noteq> None),
                      reliableStreamResetSupport := peerAdvertisedReliableStreamResetSupport conn\<rparr>;
             p1 = (case maybePeerAckReceiveTimestampsConfig conn of
                     None \<Rightarrow> p
                   | Some cfg \<Rightarrow>
                       p\<lparr>maxReceiveTimestampsPerAck := cfg_maxReceiveTimestampsPerAck cfg,
                         receiveTimestampsExponent := cfg_receiveTimestampsExponent cfg\<rparr>)
         in Some (p1\<lparr>extendedAckFeatures := peerAdvertisedExtendedAckFeatures conn\<rparr>)))"

subsection \<open>Processing the server's transport parameters\<close>

text \<open>
  The transport parameters as \<^verbatim>\<open>processServerInitialParams\<close> reads them.  The decoders
  \<^verbatim>\<open>getIntegerParameter\<close>, \<^verbatim>\<open>getConnIdParameter\<close>, \<^verbatim>\<open>getStatelessResetTokenParameter\<close> and
  \<^verbatim>\<open>findParameter\<close> belong to the codec and are not under src/; the record gives, for each
  parameter id, what the decoder returns on the received parameter list: an error, an absent
  value or a value (for \<^verbatim>\<open>findParameter\<close> the raw bytes, if the parameter is present).
\<close>

record ServerTransportParameters =
  integerParameter :: "TransportParameterId \<Rightarrow> QuicError + u64 option"
  statelessResetTokenParameter :: "QuicError + StatelessResetToken option"
  connIdParameter :: "TransportParameterId \<Rightarrow> QuicError + ConnectionId option"
  rawParameter :: "TransportParameterId \<Rightarrow> u8 list option"

text \<open>
  Modelled from the spec: \<^verbatim>\<open>kDefaultUDPSendPacketLen\<close>, \<^verbatim>\<open>kMinMaxUDPPayload\<close>,
  \<^verbatim>\<open>kMaxAckDelayExponent\<close> and \<^verbatim>\<open>kMaxDatagramPacketOverhead\<close> (QuicConstants.h) are not under
  src/.  Section 4.2 of the spec gives the default packet size 1252, the minimum 1200, the
  largest ack delay exponent 20 and the datagram overhead 40.
\<close>

definition kDefaultUDPSendPacketLen :: u64 where
  "kDefaultUDPSendPacketLen = 1252"

definition kMinMaxUDPPayload :: u64 where
  "kMinMaxUDPPayload = 1200"

definition kMaxAckDelayExponent :: u64 where
  "kMaxAckDelayExponent = 20"

definition kMaxDatagramPacketOverhead :: u64 where
  "kMaxDatagramPacketOverhead = 40"

text \<open>The constants of QuicConstants.h whose values the spec does not give.\<close>

record QuicConstants =
  kDefaultMaxUDPPayload :: u64
  kMaxIdleTimeout :: u64
  kDefaultAckDelayExponent :: u64
  kDefaultActiveConnectionIdLimit :: u64
  kMaxMaxStreams :: u64

text \<open>\<^verbatim>\<open>fmt::format("{}", n)\<close> for an unsigned number: its decimal digits.\<close>

fun decimal :: "nat \<Rightarrow> string" where
  "decimal n =
     (if n < 10 then [''0123456789'' ! n]
      else decimal (n div 10) @ [''0123456789'' ! (n mod 10)])"

declare decimal.simps [simp del]

definition value_or :: "'a option \<Rightarrow> 'a \<Rightarrow> 'a" where
  "value_or x d = (case x of None \<Rightarrow> d | Some v \<Rightarrow> v)"

text \<open>
  Lines 110 to 256: the integer parameters and the stateless reset token are decoded in this
  order, and the first decoder error is returned.
\<close>

definition decodedFirst :: "TransportParameterId list" where
  "decodedFirst =
     [initial_max_data, initial_max_stream_data_bidi_local, initial_max_stream_data_bidi_remote,
      initial_max_stream_data_uni, idle_timeout, initial_max_streams_bidi,
      initial_max_streams_uni, ack_delay_exponent, max_packet_size]"

definition decodedAfterToken :: "TransportParameterId list" where
  "decodedAfterToken =
     [active_connection_id_limit, max_datagram_frame_size, stream_groups_enabled, min_ack_delay,
      ack_receive_timestamps_enabled, max_receive_timestamps_per_ack,
      receive_timestamps_exponent, knob_frames_supported, extended_ack_features]"

fun firstError :: "(QuicError + 'a) list \<Rightarrow> QuicError option" where
  "firstError [] = None"
| "firstError (Inl e # rs) = Some e"
| "firstError (Inr v # rs) = firstError rs"

definition decodeError :: "ServerTransportParameters \<Rightarrow> QuicError option" where
  "decodeError sp =
     (case firstError (map (integerParameter sp) decodedFirst) of
        Some e \<Rightarrow> Some e
      | None \<Rightarrow>
         (case statelessResetTokenParameter sp of
            Inl e \<Rightarrow> Some e
          | Inr _ \<Rightarrow> firstError (map (integerParameter sp) decodedAfterToken)))"

text \<open>The value of a decoded integer parameter (used once \<open>decodeError\<close> found no error).\<close>

definition decoded :: "ServerTransportParameters \<Rightarrow> TransportParameterId \<Rightarrow> u64 option" where
  "decoded sp i = (case integerParameter sp i of Inl _ \<Rightarrow> None | Inr v \<Rightarrow> v)"

text \<open>
  Lines 272 to 301: for QUIC v1 and its aliases the server's
  \<^verbatim>\<open>initial_source_connection_id\<close> must be the server connection id of the read codec and
  \<^verbatim>\<open>original_destination_connection_id\<close> the connection's own.
\<close>

definition connIdError :: "QuicClientConnectionState \<Rightarrow> ServerTransportParameters \<Rightarrow> QuicError option" where
  "connIdError conn sp =
     (if version conn = Some QUIC_V1 \<or> version conn = Some QUIC_V1_ALIAS \<or>
         version conn = Some QUIC_V1_ALIAS2 \<or> version conn = Some MVFST_PRIMING
      then
        (case connIdParameter sp initial_source_connection_id of
           Inl e \<Rightarrow> Some e
         | Inr initialSourceConnId \<Rightarrow>
            (case connIdParameter sp original_destination_connection_id of
               Inl e \<Rightarrow> Some e
             | Inr originalDestinationConnId \<Rightarrow>
                (if initialSourceConnId = None \<or> originalDestinationConnId = None \<or>
                    initialSourceConnId \<noteq> rc_serverConnectionId (readCodec conn) \<or>
                    originalDestinationConnId \<noteq> originalDestinationConnectionId conn
                 then Some (QuicError TRANSPORT_PARAMETER_ERROR ''Initial CID does not match.'')
                 else None)))
      else None)"

text \<open>Lines 305 to 307: an absent or zero \<^verbatim>\<open>max_packet_size\<close> becomes the default.\<close>

definition effectivePacketSize :: "u64 option \<Rightarrow> u64" where
  "effectivePacketSize packetSize =
     (case packetSize of
        None \<Rightarrow> kDefaultUDPSendPacketLen
      | Some n \<Rightarrow> if n = 0 then kDefaultUDPSendPacketLen else n)"

text \<open>
  Modelled from the spec: \<^verbatim>\<open>QuicStreamManager::setMaxLocalBidirectionalStreams\<close> and
  \<^verbatim>\<open>setMaxLocalUnidirectionalStreams\<close> are not under src/.  They "update max local streams
  (bidi/uni)" and return an error for a count above the largest the protocol allows.
\<close>

definition setMaxLocalBidirectionalStreams ::
  "QuicConstants \<Rightarrow> u64 \<Rightarrow> ClientStreamManager \<Rightarrow> QuicError + ClientStreamManager" where
  "setMaxLocalBidirectionalStreams K n sm =
     (if kMaxMaxStreams K < n
      then Inl (QuicError STREAM_LIMIT_ERROR ''Attempt to set maxStreams beyond the max allowed.'')
      else Inr (sm\<lparr>maxLocalBidirectionalStreams := n\<rparr>))"

definition setMaxLocalUnidirectionalStreams ::
  "QuicConstants \<Rightarrow> u64 \<Rightarrow> ClientStreamManager \<Rightarrow> QuicError + ClientStreamManager" where
  "setMaxLocalUnidirectionalStreams K n sm =
     (if kMaxMaxStreams K < n
      then Inl (QuicError STREAM_LIMIT_ERROR ''Attempt to set maxStreams beyond the max allowed.'')
      else Inr (sm\<lparr>maxLocalUnidirectionalStreams := n\<rparr>))"

text \<open>
  Modelled from the spec: \<^verbatim>\<open>handleStreamWindowUpdate\<close> and \<^verbatim>\<open>streamStateForEach\<close> are not under
  src/.  The engine "walks every pre-existing stream to apply the correct initial per-stream
  window": a stream's allowed offset is raised to the window, never lowered.
\<close>

definition handleStreamWindowUpdate :: "StreamId \<times> u64 \<Rightarrow> u64 \<Rightarrow> PacketNum \<Rightarrow> StreamId \<times> u64" where
  "handleStreamWindowUpdate s windowSize packetNum =
     (if snd s \<le> windowSize then (fst s, windowSize) else s)"

definition initialWindowFor :: "QuicClientConnectionState \<Rightarrow> StreamId \<Rightarrow> u64" where
  "initialWindowFor conn i =
     (if isUnidirectionalStream i
      then advertisedInitialUniStreamFlowControlWindow (transportSettings conn)
      else if isLocalStream (conn_nodeType conn) i
      then advertisedInitialBidiLocalStreamFlowControlWindow (transportSettings conn)
      else advertisedInitialBidiRemoteStreamFlowControlWindow (transportSettings conn))"

text \<open>\<^verbatim>\<open>timeMin\<close> on \<^verbatim>\<open>std::chrono::milliseconds\<close>, whose count is a signed 64-bit number.\<close>

definition timeMin :: "u64 \<Rightarrow> u64 \<Rightarrow> u64" where
  "timeMin a b = (if sint a \<le> sint b then a else b)"

text \<open>
  The rest of the function runs in four steps; a step that returns an error ends it, with the
  connection as the step left it.
\<close>

definition andThen ::
  "Expected \<times> 'c \<Rightarrow> ('c \<Rightarrow> Expected \<times> 'c) \<Rightarrow> Expected \<times> 'c" where
  "andThen r k = (case fst r of Inl e \<Rightarrow> r | Inr _ \<Rightarrow> k (snd r))"

text \<open>Lines 324 to 342: the peer's flow-control offsets and the local stream limits.\<close>

definition applyFlowControlAndStreamLimits ::
  "QuicConstants \<Rightarrow> ServerTransportParameters \<Rightarrow> QuicClientConnectionState \<Rightarrow>
   Expected \<times> QuicClientConnectionState" where
  "applyFlowControlAndStreamLimits K sp conn =
     (let conn1 = conn\<lparr>flowControlState := (flowControlState conn)
            \<lparr>peerAdvertisedMaxOffset := value_or (decoded sp initial_max_data) 0,
             peerAdvertisedInitialMaxStreamOffsetBidiLocal :=
               value_or (decoded sp initial_max_stream_data_bidi_local) 0,
             peerAdvertisedInitialMaxStreamOffsetBidiRemote :=
               value_or (decoded sp initial_max_stream_data_bidi_remote) 0,
             peerAdvertisedInitialMaxStreamOffsetUni :=
               value_or (decoded sp initial_max_stream_data_uni) 0\<rparr>\<rparr>
      in case setMaxLocalBidirectionalStreams K
                (value_or (decoded sp initial_max_streams_bidi) 0) (conn_streamManager conn1) of
           Inl e \<Rightarrow> (Inl e, conn1)
         | Inr sm1 \<Rightarrow>
            (let conn2 = conn1\<lparr>conn_streamManager := sm1,
                   peerAdvertisedInitialMaxStreamsBidi :=
                     value_or (decoded sp initial_max_streams_bidi) 0\<rparr>
             in case setMaxLocalUnidirectionalStreams K
                       (value_or (decoded sp initial_max_streams_uni) 0)
                       (conn_streamManager conn2) of
                  Inl e \<Rightarrow> (Inl e, conn2)
                | Inr sm2 \<Rightarrow>
                   (Inr (),
                    conn2\<lparr>conn_streamManager := sm2,
                      peerAdvertisedInitialMaxStreamsUni :=
                        value_or (decoded sp initial_max_streams_uni) 0\<rparr>)))"

text \<open>
  Lines 343 to 365: idle timeout, ack delay exponent, minimal ack delay, the UDP packet length
  (from the packet size of lines 305 to 307), the active connection id limit and the stateless
  reset token.
\<close>

definition applyTimersAndLimits ::
  "QuicConstants \<Rightarrow> ServerTransportParameters \<Rightarrow> u64 \<Rightarrow> QuicClientConnectionState \<Rightarrow>
   Expected \<times> QuicClientConnectionState" where
  "applyTimersAndLimits K sp packetSize conn =
     (let conn1 = conn\<lparr>peerIdleTimeout :=
                   timeMin (value_or (decoded sp idle_timeout) 0) (kMaxIdleTimeout K)\<rparr>
      in if (case decoded sp ack_delay_exponent of
               None \<Rightarrow> False
             | Some x \<Rightarrow> kMaxAckDelayExponent < x) then
           (Inl (QuicError TRANSPORT_PARAMETER_ERROR ''ack_delay_exponent too large''), conn1)
         else
          (let conn2 = conn1\<lparr>peerAckDelayExponent :=
                 value_or (decoded sp ack_delay_exponent) (kDefaultAckDelayExponent K)\<rparr>;
               conn3 = (case decoded sp min_ack_delay of
                          None \<Rightarrow> conn2
                        | Some d \<Rightarrow> conn2\<lparr>peerMinAckDelay := Some d\<rparr>);
               conn4 = (if canIgnorePathMTU (transportSettings conn3)
                        then conn3\<lparr>udpSendPacketLen := min packetSize (kDefaultMaxUDPPayload K)\<rparr>
                        else conn3)
           in (Inr (),
               conn4\<lparr>peerActiveConnectionIdLimit :=
                   value_or (decoded sp active_connection_id_limit)
                     (kDefaultActiveConnectionIdLimit K),
                 statelessResetToken :=
                   (case statelessResetTokenParameter sp of Inl _ \<Rightarrow> None | Inr t \<Rightarrow> t)\<rparr>)))"

text \<open>Lines 366 to 378: the streams that exist already get their initial window.\<close>

definition applyStreamWindows ::
  "PacketNum \<Rightarrow> QuicClientConnectionState \<Rightarrow> Expected \<times> QuicClientConnectionState" where
  "applyStreamWindows packetNum conn =
     (Inr (),
      conn\<lparr>conn_streamManager := (conn_streamManager conn)
        \<lparr>streamWindows :=
           map (\<lambda>s. handleStreamWindowUpdate s (initialWindowFor conn (fst s)) packetNum)
             (streamWindows (conn_streamManager conn))\<rparr>\<rparr>)"

text \<open>
  Lines 379 to 411: datagram frame size, stream groups, ack receive timestamps, knob frames and
  extended ack features.
\<close>

definition applyExtensions ::
  "ServerTransportParameters \<Rightarrow> QuicClientConnectionState \<Rightarrow>
   Expected \<times> QuicClientConnectionState" where
  "applyExtensions sp conn =
     (if (case decoded sp max_datagram_frame_size of
            None \<Rightarrow> False
          | Some d \<Rightarrow> 0 < d \<and> d \<le> kMaxDatagramPacketOverhead) then
        (Inl (QuicError TRANSPORT_PARAMETER_ERROR ''max_datagram_frame_size too small''), conn)
      else
        (let conn1 = (case decoded sp max_datagram_frame_size of
                        None \<Rightarrow> conn
                      | Some d \<Rightarrow> conn\<lparr>datagramMaxWriteFrameSize := d\<rparr>);
             conn2 = (case decoded sp stream_groups_enabled of
                        None \<Rightarrow> conn1
                      | Some g \<Rightarrow> conn1\<lparr>peerAdvertisedMaxStreamGroups := g\<rparr>);
             conn3 =
               (if decoded sp ack_receive_timestamps_enabled = Some 1 then
                  (case (decoded sp max_receive_timestamps_per_ack,
                         decoded sp receive_timestamps_exponent) of
                     (Some m, Some x) \<Rightarrow>
                       conn2\<lparr>maybePeerAckReceiveTimestampsConfig :=
                         Some (mkAckReceiveTimestampsConfig m
                                 (maxReceiveTimestampsPerAckStored (transportSettings conn2)) x)\<rparr>
                   | _ \<Rightarrow> conn2)
                else conn2)
         in (Inr (),
             conn3\<lparr>peerAdvertisedKnobFrameSupport :=
                 (0 < value_or (decoded sp knob_frames_supported) 0),
               peerAdvertisedExtendedAckFeatures :=
                 ucast (value_or (decoded sp extended_ack_features) 0)\<rparr>)))"

text \<open>
  Lines 305 to 411, reached when decoding, the reliable-reset parameter and the connection ids
  raised no error.
\<close>

definition applyServerParams ::
  "QuicConstants \<Rightarrow> QuicClientConnectionState \<Rightarrow> ServerTransportParameters \<Rightarrow> PacketNum \<Rightarrow>
   Expected \<times> QuicClientConnectionState" where
  "applyServerParams K conn sp packetNum =
     (let packetSize = effectivePacketSize (decoded sp max_packet_size)
      in if packetSize < kMinMaxUDPPayload then
           (Inl (QuicError TRANSPORT_PARAMETER_ERROR
                   (''Max packet size too small. received max_packetSize = '' @
                    decimal (unat packetSize))), conn)
         else
           andThen (andThen (andThen (applyFlowControlAndStreamLimits K sp conn)
                      (applyTimersAndLimits K sp packetSize))
                      (applyStreamWindows packetNum))
             (applyExtensions sp))"

definition processServerInitialParams ::
  "QuicConstants \<Rightarrow> QuicClientConnectionState \<Rightarrow> ServerTransportParameters \<Rightarrow> PacketNum \<Rightarrow>
   Expected \<times> QuicClientConnectionState" where
  "processServerInitialParams K conn serverParams packetNum =
     (case decodeError serverParams of
        Some e \<Rightarrow> (Inl e, conn)
      | None \<Rightarrow>
         (case rawParameter serverParams reliable_stream_reset of
            Some v \<Rightarrow>
              (if v \<noteq> [] then
                 (Inl (QuicError TRANSPORT_PARAMETER_ERROR
                         ''Reliable reset transport parameter must be empty''), conn)
               else
                 (let conn1 = conn\<lparr>peerAdvertisedReliableStreamResetSupport := True\<rparr>
                  in case connIdError conn1 serverParams of
                       Some e \<Rightarrow> (Inl e, conn1)
                     | None \<Rightarrow> applyServerParams K conn1 serverParams packetNum))
          | None \<Rightarrow>
              (let conn1 = conn\<lparr>peerAdvertisedReliableStreamResetSupport := False\<rparr>
               in case connIdError conn1 serverParams of
                    Some e \<Rightarrow> (Inl e, conn1)
                  | None \<Rightarrow> applyServerParams K conn1 serverParams packetNum)))"

subsection \<open>Undoing the client state for a Retry\<close>







section \<open>Concrete states of the spec's scenarios\<close>

text \<open>
  The stream of scenario S4: reliable size 50 sent to the peer with error code 7, in a given
  send state and with given acked intervals, buffered chunks and acknowledged reliable size.
\<close>

definition S4_stream ::
  "StreamSendState \<Rightarrow> (u64 \<times> u64) list \<Rightarrow> (u64 \<rightharpoonup> StreamBuffer) \<Rightarrow> u64 option \<Rightarrow> QuicStreamState" where
  "S4_stream st ivs rtx m =
     \<lparr>stream_id = 0,
      stream_conn = \<lparr>nodeType = Client,
              streamManager = \<lparr>stopSendingStreams = Map.empty, deliverableStreams = {},
                               closedStreams = {}\<rparr>,
              pendingResets = Map.empty\<rparr>,
      sendState = st, recvState = RecvOpen, pendingWrites = [],
      retransmissionBuffer = rtx, retransmissionBufMetas = Map.empty,
      ackedIntervals = ivs, finalWriteOffset = None, appErrorCodeToPeer = Some 7,
      reliableSizeToPeer = Some 50, minReliableSizeAcked = m\<rparr>"

definition S4_frame :: WriteStreamFrame where
  "S4_frame = \<lparr>frame_streamId = 0, frame_offset = 0, frame_len = 50, frame_fin = False,
               fromBufMeta = False\<rparr>"

definition S4_chunk :: StreamBuffer where
  "S4_chunk = \<lparr>buf_offset = 0, buf_chainLength = 50, buf_eof = False\<rparr>"


text \<open>
  The scheduler of scenario S2 after its three inserts (list 2, 3, 1 with the cursor on 1), in
  a given advance mode, with a given threshold and counter.
\<close>

definition rr_example :: "AdvanceType \<Rightarrow> u64 \<Rightarrow> u64 \<Rightarrow> RoundRobin" where
  "rr_example t n c =
     \<lparr>list_rr = [(1, 2), (2, 3), (0, 1)], nextIt_rr = Some 0, indexMap_rr = Map.empty,
      advanceType_rr = t, advanceAfter_rr = n, current_rr = c, useIndexMap_rr = False,
      fresh_rr = 3\<rparr>"

text \<open>
  A client connection for the scenarios: connection ids C = [1], S = [2], O = [3], a given
  version, loss state and list of outstanding packets.
\<close>

definition example_transportSettings :: TransportSettings where
  "example_transportSettings =
     \<lparr>canIgnorePathMTU = True,
      advertisedInitialUniStreamFlowControlWindow = 65536,
      advertisedInitialBidiLocalStreamFlowControlWindow = 65536,
      advertisedInitialBidiRemoteStreamFlowControlWindow = 65536,
      maxReceiveTimestampsPerAckStored = 10,
      maybeAckReceiveTimestampsConfigSentToPeer = None,
      advertisedExtendedAckFeatures = 0,
      maxPacketsToBuffer = 20\<rparr>"

definition example_client ::
  "QuicVersion \<Rightarrow> LossState \<Rightarrow> OutstandingPacket list \<Rightarrow> QuicClientConnectionState" where
  "example_client v ls ps =
     \<lparr>handshakeFactory = 1, observerContainer = 2, qLogger = 3,
      clientConnectionId = Some [1], initialDestinationConnectionId = Some [3],
      originalDestinationConnectionId = Some [3], serverConnectionId = Some [2],
      ackStates = \<lparr>initialAckState = Some \<lparr>nextPacketNum = 2, largestRecvdPacketNum = Some 0\<rparr>,
                   handshakeAckState = Some \<lparr>nextPacketNum = 0, largestRecvdPacketNum = None\<rparr>,
                   appDataAckState = \<lparr>nextPacketNum = 3, largestRecvdPacketNum = None\<rparr>\<rparr>,
      version = Some v, originalVersion = Some v,
      originalPeerAddress = ([10, 0, 0, 1], 443), peerAddress = ([10, 0, 0, 1], 443),
      udpSendPacketLen = 1252, supportedVersions = [v],
      transportSettings = example_transportSettings,
      initialWriteCipher = Some 4,
      readCodec = \<lparr>rc_nodeType = Client, rc_clientConnectionId = Some [1],
                   rc_serverConnectionId = Some [2], rc_codecParameters = None\<rparr>,
      peerAckDelayExponent = 3,
      earlyDataAppParamsValidator = None, earlyDataAppParamsGetter = None,
      happyEyeballsState = 5,
      flowControlState = \<lparr>peerAdvertisedMaxOffset = 0,
                          peerAdvertisedInitialMaxStreamOffsetBidiLocal = 0,
                          peerAdvertisedInitialMaxStreamOffsetBidiRemote = 0,
                          peerAdvertisedInitialMaxStreamOffsetUni = 0,
                          sumCurWriteOffset = 100\<rparr>,
      bufAccessor = None, pendingOneRttData = [],
      congestionControllerFactory = Some 6,
      congestionController = Some \<lparr>cc_type = Cubic, cc_bytesInFlight = 2504\<rparr>,
      outstandings = \<lparr>packets = ps, packetCount = (\<lambda>_. 0)(AppData := of_nat (length ps))\<rparr>,
      lossState = ls,
      conn_nodeType = Client,
      conn_streamManager = \<lparr>maxLocalBidirectionalStreams = 0,
                            maxLocalUnidirectionalStreams = 0, streamWindows = [(0, 0)]\<rparr>,
      peerIdleTimeout = 0, peerMinAckDelay = None, peerActiveConnectionIdLimit = 0,
      statelessResetToken = None, datagramMaxWriteFrameSize = 0,
      peerAdvertisedMaxStreamGroups = 0, maybePeerAckReceiveTimestampsConfig = None,
      peerAdvertisedKnobFrameSupport = False, peerAdvertisedExtendedAckFeatures = 0,
      peerAdvertisedReliableStreamResetSupport = False, serverInitialParamsSet = False,
      peerAdvertisedInitialMaxData = 0, peerAdvertisedInitialMaxStreamDataBidiLocal = 0,
      peerAdvertisedInitialMaxStreamDataBidiRemote = 0,
      peerAdvertisedInitialMaxStreamDataUni = 0, peerAdvertisedInitialMaxStreamsBidi = 0,
      peerAdvertisedInitialMaxStreamsUni = 0\<rparr>"

definition example_constants :: QuicConstants where
  "example_constants =
     \<lparr>kDefaultMaxUDPPayload = 1452, kMaxIdleTimeout = 60000, kDefaultAckDelayExponent = 3,
      kDefaultActiveConnectionIdLimit = 2, kMaxMaxStreams = 1152921504606846976\<rparr>"

text \<open>Server parameters in which only \<^verbatim>\<open>max_packet_size\<close> may be present.\<close>

definition only_max_packet_size :: "u64 option \<Rightarrow> ServerTransportParameters" where
  "only_max_packet_size n =
     \<lparr>integerParameter = (\<lambda>_. Inr None)(max_packet_size := Inr n),
      statelessResetTokenParameter = Inr None,
      connIdParameter = (\<lambda>_. Inr None),
      rawParameter = (\<lambda>_. None)\<rparr>"

definition example_cached_default :: CachedServerTransportParameters where
  "example_cached_default =
     \<lparr>idleTimeout = 0, maxRecvPacketSize = 0, initialMaxData = 0,
      initialMaxStreamDataBidiLocal = 0, initialMaxStreamDataBidiRemote = 0,
      initialMaxStreamDataUni = 0, initialMaxStreamsBidi = 0, initialMaxStreamsUni = 0,
      knobFrameSupport = False, ackReceiveTimestampsEnabled = False,
      maxReceiveTimestampsPerAck = 0, receiveTimestampsExponent = 0,
      reliableStreamResetSupport = False, extendedAckFeatures = 0\<rparr>"



text \<open>
  Two schedulers for the comparison of the indexed and the linear erase path, both built with
  the scheduler's own operations from a new one.  The first is filled with 31 identifiers,
  which builds the index at the last insert, and then emptied to the identifiers 1 to 16; the
  second is filled with the identifiers 1 to 16 only.  The trace run on both erases down to
  eight identifiers, below the size at which an index is dropped.
\<close>

definition rr_after :: "rr_op list \<Rightarrow> RoundRobin" where
  "rr_after cs = (case snd (rr_run cs (RoundRobin_new Nexts 1)) of
                    Inr s \<Rightarrow> s | Inl e \<Rightarrow> RoundRobin_new Nexts 1)"

definition S5_indexed :: RoundRobin where
  "S5_indexed =
     rr_after
       (map Insert [1, 2, 3, 4, 5, 6, 7, 8, 9, 10, 11, 12, 13, 14, 15, 16, 17, 18, 19, 20,
        21, 22, 23, 24, 25, 26, 27, 28, 29, 30, 31] @
        map Erase [17, 18, 19, 20, 21, 22, 23, 24, 25, 26, 27, 28, 29, 30, 31])"

definition S5_linear :: RoundRobin where
  "S5_linear =
     rr_after (map Insert [1, 2, 3, 4, 5, 6, 7, 8, 9, 10, 11, 12, 13, 14, 15, 16])"

definition S5_trace :: "rr_op list" where
  "S5_trace = [GetNext None, Erase 1, Erase 9, GetNext None, Insert 40, Erase 16, GetNext None,
               Erase 2, Erase 3, Erase 4, Erase 5, Erase 99, Erase 10, Erase 11,
               GetNext None, PeekNext, Insert 41, GetNext None, GetNext None]"

section \<open>Round-robin scheduler: scenarios and the byte counter\<close>

lemmas rr_unfold =
  RoundRobin_new_def RoundRobin_insert_def RoundRobin_erase_def erase_it_def buildIndex_def
  getNext_def consume_def maybeAdvance_def advanceAfterBytes_def advanceAfterNext_def
  list_begin_def list_deref_def nodes_before_def nodes_after_def kBuildIndexThreshold_def
  kDestroyIndexThreshold_def Let_def rr_step_def

text \<open>
  C1 (as the spec states it): after inserting 1, 2, 3 and \<^verbatim>\<open>advanceAfterBytes(100)\<close>, the calls
  getNext(60), getNext(40), getNext(10), getNext(100) return 1, 1, 2, 3.  The scheduler does not:
  the fourth call returns 2, the element under the cursor before its own 100 bytes are counted.
\<close>

theorem S2_claimed_results_refuted:
  "fst (rr_run [Insert 1, Insert 2, Insert 3, AdvanceAfterBytes 100, GetNext (Some 60),
                GetNext (Some 40), GetNext (Some 10), GetNext (Some 100)]
          (RoundRobin_new Nexts 1))
   \<noteq> [Done, Done, Done, Done, Next 1, Next 1, Next 2, Next 3]"
  by (simp add: rr_unfold)

text \<open>
  C1 (amended): from an empty scheduler, whatever its initial advance mode and threshold, after
  inserting 1, 2, 3 and \<^verbatim>\<open>advanceAfterBytes(100)\<close> the calls getNext(60), getNext(40),
  getNext(10), getNext(100) return 1, 1, 2, 2: the cursor leaves 1 once 100 bytes are counted,
  and getNext returns the element under the cursor before it counts its own bytes.  The next
  getNext returns 3.
\<close>

theorem S2_bytes_mode_results:
  "fst (rr_run [Insert 1, Insert 2, Insert 3, AdvanceAfterBytes 100, GetNext (Some 60),
                GetNext (Some 40), GetNext (Some 10), GetNext (Some 100), GetNext None]
          (RoundRobin_new t n))
   = [Done, Done, Done, Done, Next 1, Next 1, Next 2, Next 2, Next 3]"
  by (simp add: rr_unfold)

lemma getNext_absent_unchanged:
  assumes "advanceType_rr s = Bytes" and "current_rr s < advanceAfter_rr s"
    and "list_deref (list_rr s) (nextIt_rr s) = Some v"
  shows "getNext None s = Inr (v, s)"
proof -
  from assms(3) have ne: "list_rr s \<noteq> []"
    by (auto simp: list_deref_def split: option.splits)
  from assms(2) have "\<not> advanceAfter_rr s \<le> current_rr s" by simp
  with assms ne show ?thesis by (simp add: getNext_def consume_def maybeAdvance_def)
qed

lemma getNext_absent_repeat:
  assumes "getNext None s = Inr (v, s)"
  shows "rr_run (replicate k (GetNext None)) s = (replicate k (Next v), Inr s)"
  using assms by (induction k) (simp_all add: rr_step_def)

text \<open>
  C10 (as stated): in Bytes mode getNext without a byte count never moves the cursor, so it
  returns the same identifier forever.  With a threshold of 0 bytes the cursor moves on every
  call: two such calls return 1 and then 2.
\<close>

theorem getNext_absent_bytes_moves_cursor:
  "fst (rr_run [Insert 1, Insert 2, AdvanceAfterBytes 0, GetNext None, GetNext None]
          (RoundRobin_new Nexts 1))
   = [Done, Done, Done, Next 1, Next 2]"
  by (simp add: rr_unfold)

text \<open>
  C10 (amended): in Bytes mode, while the byte counter is below the threshold, getNext without a
  byte count returns the element under the cursor and leaves the scheduler as it was (counter
  and cursor included), so any number of such calls return the same identifier.  In Nexts mode
  the byte argument is ignored and every getNext counts 1 before the threshold is tested.
\<close>

theorem getNext_absent_bytes_mode:
  "(advanceType_rr s = Bytes \<longrightarrow> current_rr s < advanceAfter_rr s \<longrightarrow>
      list_deref (list_rr s) (nextIt_rr s) = Some v \<longrightarrow>
        getNext None s = Inr (v, s) \<and>
        rr_run (replicate k (GetNext None)) s = (replicate k (Next v), Inr s)) \<and>
   (advanceType_rr s = Nexts \<longrightarrow>
        getNext b s = getNext None s \<and>
        consume b s = maybeAdvance (s\<lparr>current_rr := current_rr s + 1\<rparr>))"
proof -
  have "getNext None s = Inr (v, s) \<and>
        rr_run (replicate k (GetNext None)) s = (replicate k (Next v), Inr s)"
    if "advanceType_rr s = Bytes" "current_rr s < advanceAfter_rr s"
       "list_deref (list_rr s) (nextIt_rr s) = Some v"
    using getNext_absent_unchanged[OF that] getNext_absent_repeat by simp
  moreover have "getNext b s = getNext None s \<and>
        consume b s = maybeAdvance (s\<lparr>current_rr := current_rr s + 1\<rparr>)"
    if "advanceType_rr s = Nexts"
  proof -
    from that have c: "consume b s = maybeAdvance (s\<lparr>current_rr := current_rr s + 1\<rparr>)"
      and c0: "consume None s = maybeAdvance (s\<lparr>current_rr := current_rr s + 1\<rparr>)"
      by (simp_all add: consume_def)
    then show ?thesis by (simp only: getNext_def)
  qed
  ultimately show ?thesis by blast
qed

theorem getNext_absent_bytes_mode_witness:
  "getNext None (rr_example Bytes 100 60) = Inr (1, rr_example Bytes 100 60) \<and>
   rr_run (replicate 3 (GetNext None)) (rr_example Bytes 100 60)
     = (replicate 3 (Next 1), Inr (rr_example Bytes 100 60)) \<and>
   getNext (Some 500) (rr_example Nexts 3 1) = getNext None (rr_example Nexts 3 1) \<and>
   getNext (Some 500) (rr_example Nexts 3 1) = Inr (1, rr_example Nexts 3 2)"
proof -
  have a: "advanceType_rr (rr_example Bytes 100 60) = Bytes"
    and b: "current_rr (rr_example Bytes 100 60) < advanceAfter_rr (rr_example Bytes 100 60)"
    and c: "list_deref (list_rr (rr_example Bytes 100 60)) (nextIt_rr (rr_example Bytes 100 60)) = Some 1"
    and d: "advanceType_rr (rr_example Nexts 3 1) = Nexts"
    by (simp_all add: rr_example_def list_deref_def)
  have e: "getNext None (rr_example Nexts 3 1) = Inr (1, rr_example Nexts 3 2)"
    by (simp add: rr_example_def rr_unfold)
  from getNext_absent_bytes_mode[of "rr_example Bytes 100 60" 1 3] a b c
       getNext_absent_bytes_mode[of "rr_example Nexts 3 1" _ _ "Some 500"] d e
  show ?thesis by simp
qed

section \<open>Stream send state machine: the handlers\<close>

text \<open>
  C4: in send state Invalid each of the four handlers (stop-sending, reset, stream-frame ack,
  reset-ack) returns an error with code \<^verbatim>\<open>STREAM_STATE_ERROR\<close> and leaves the stream as it was;
  so does the reset-ack handler in send state Open.
\<close>

theorem invalid_transition_rejected:
  "(sendState s = Invalid \<longrightarrow>
      sendStopSendingSMHandler s f =
        Some (Inl (QuicError STREAM_STATE_ERROR ''Invalid transition from state=Invalid''), s) \<and>
      sendRstSMHandler s e r =
        Some (Inl (QuicError STREAM_STATE_ERROR ''Invalid transition from state=Invalid''), s) \<and>
      sendAckSMHandler s a =
        Some (Inl (QuicError STREAM_STATE_ERROR ''Invalid transition from state=Invalid''), s) \<and>
      sendRstAckSMHandler s r' =
        Some (Inl (QuicError STREAM_STATE_ERROR ''Invalid transition from state=Invalid''), s)) \<and>
   (sendState s = Open \<longrightarrow>
      sendRstAckSMHandler s r' =
        Some (Inl (QuicError STREAM_STATE_ERROR ''Invalid transition from state=Open''), s))"
  by (simp add: sendStopSendingSMHandler_def sendRstSMHandler_def sendAckSMHandler_def
        sendRstAckSMHandler_def invalidTransition_def streamStateToString_def)

theorem invalid_transition_rejected_witness:
  "sendStopSendingSMHandler (S4_stream Invalid [] Map.empty None)
       \<lparr>ss_streamId = 0, ss_errorCode = 3\<rparr> =
     Some (Inl (QuicError STREAM_STATE_ERROR ''Invalid transition from state=Invalid''),
           S4_stream Invalid [] Map.empty None) \<and>
   sendRstSMHandler (S4_stream Invalid [] Map.empty None) 7 (Some 50) =
     Some (Inl (QuicError STREAM_STATE_ERROR ''Invalid transition from state=Invalid''),
           S4_stream Invalid [] Map.empty None) \<and>
   sendAckSMHandler (S4_stream Invalid [] Map.empty None) S4_frame =
     Some (Inl (QuicError STREAM_STATE_ERROR ''Invalid transition from state=Invalid''),
           S4_stream Invalid [] Map.empty None) \<and>
   sendRstAckSMHandler (S4_stream Invalid [] Map.empty None) (Some 50) =
     Some (Inl (QuicError STREAM_STATE_ERROR ''Invalid transition from state=Invalid''),
           S4_stream Invalid [] Map.empty None) \<and>
   sendRstAckSMHandler (S4_stream Open [] Map.empty None) (Some 50) =
     Some (Inl (QuicError STREAM_STATE_ERROR ''Invalid transition from state=Open''),
           S4_stream Open [] Map.empty None)"
proof -
  have i: "sendState (S4_stream Invalid [] Map.empty None) = Invalid"
    and ob: "sendState (S4_stream Open [] Map.empty None) = Open"
    by (simp_all add: S4_stream_def)
  from invalid_transition_rejected
         [of "S4_stream Invalid [] Map.empty None" "\<lparr>ss_streamId = 0, ss_errorCode = 3\<rparr>" 7
             "Some 50" S4_frame "Some 50"] i
       invalid_transition_rejected [of "S4_stream Open [] Map.empty None" _ _ _ _ "Some 50"] ob
  show ?thesis by simp
qed

text \<open>
  C3: in send state ResetSent the reset-ack handler sets \<^verbatim>\<open>minReliableSizeAcked\<close> to the
  minimum of the existing and the received value, an absent received size counting as 0 and an
  absent existing value being replaced by the received one; the stream becomes Closed if and
  only if that minimum \<open>m\<close> is 0 or all bytes through offset \<open>m - 1\<close> are acked, and stays in
  ResetSent otherwise.
\<close>

theorem reset_ack_in_ResetSent:
  assumes "sendState s = ResetSent"
    and "received = (case reliableSize of None \<Rightarrow> 0 | Some r \<Rightarrow> r)"
    and "m = (case minReliableSizeAcked s of None \<Rightarrow> received | Some old \<Rightarrow> min old received)"
  shows "\<exists>s'. sendRstAckSMHandler s reliableSize = Some (Inr (), s') \<and>
           minReliableSizeAcked s' = Some m \<and>
           (sendState s' = Closed \<longleftrightarrow> m = 0 \<or> allBytesAckedTill s (m - 1)) \<and>
           (sendState s' \<noteq> Closed \<longrightarrow> sendState s' = ResetSent)"
proof -
  have ab: "allBytesAckedTill (s\<lparr>minReliableSizeAcked := Some m\<rparr>) x = allBytesAckedTill s x" for x
    by (simp add: allBytesAckedTill_def)
  show ?thesis
  proof (cases "m = 0 \<or> allBytesAckedTill s (m - 1)")
    case True
    with assms ab show ?thesis
      by (auto simp: sendRstAckSMHandler_def Let_def addClosed_def)
  next
    case False
    with assms ab show ?thesis
      by (auto simp: sendRstAckSMHandler_def Let_def)
  qed
qed

lemma S4_acked_through_49:
  "allBytesAckedTill (S4_stream st [(0, 49)] rtx m) 49"
  by (simp add: allBytesAckedTill_def S4_stream_def)

lemma S4_not_acked_through_49:
  "\<not> allBytesAckedTill (S4_stream st [(0, 40)] rtx m) 49"
  by (auto simp add: allBytesAckedTill_def S4_stream_def intro!: bexI[of _ 41])

theorem reset_ack_in_ResetSent_witness:
  "(\<exists>s'. sendRstAckSMHandler (S4_stream ResetSent [(0, 49)] Map.empty None) (Some 50)
            = Some (Inr (), s') \<and>
          minReliableSizeAcked s' = Some 50 \<and> sendState s' = Closed) \<and>
   (\<exists>s'. sendRstAckSMHandler (S4_stream ResetSent [(0, 40)] Map.empty None) (Some 50)
            = Some (Inr (), s') \<and>
          minReliableSizeAcked s' = Some 50 \<and> sendState s' = ResetSent)"
proof -
  have st: "sendState (S4_stream ResetSent ivs Map.empty None) = ResetSent"
    and mn: "minReliableSizeAcked (S4_stream ResetSent ivs Map.empty None) = None" for ivs
    by (simp_all add: S4_stream_def)
  from reset_ack_in_ResetSent
         [of "S4_stream ResetSent [(0, 49)] Map.empty None" 50 "Some 50" 50]
       st mn S4_acked_through_49
  have closes: "\<exists>s'. sendRstAckSMHandler (S4_stream ResetSent [(0, 49)] Map.empty None) (Some 50)
            = Some (Inr (), s') \<and>
          minReliableSizeAcked s' = Some 50 \<and> sendState s' = Closed"
    by auto
  from reset_ack_in_ResetSent
         [of "S4_stream ResetSent [(0, 40)] Map.empty None" 50 "Some 50" 50]
       st mn S4_not_acked_through_49
  have stays: "\<exists>s'. sendRstAckSMHandler (S4_stream ResetSent [(0, 40)] Map.empty None) (Some 50)
            = Some (Inr (), s') \<and>
          minReliableSizeAcked s' = Some 50 \<and> sendState s' = ResetSent"
    by auto
  from closes stays show ?thesis by (rule conjI)
qed

subsection \<open>Local resets\<close>












subsection \<open>Acknowledged stream frames\<close>

lemma ackedChunkCleanup_matching:
  assumes m: "ackedFrameMatches s f"
  shows "ackedChunkCleanup s f =
     Some ((case ackedChunk s f of
              None \<Rightarrow> s
            | Some c \<Rightarrow> updateAckedIntervals (fst c) (fst (snd c)) (snd (snd c)) s)
       \<lparr>retransmissionBuffer :=
          (if fromBufMeta f then retransmissionBuffer s
           else (retransmissionBuffer s)(frame_offset f := None)),
        retransmissionBufMetas :=
          (if fromBufMeta f then (retransmissionBufMetas s)(frame_offset f := None)
           else retransmissionBufMetas s)\<rparr>)"
proof (cases "fromBufMeta f")
  case True
  show ?thesis
  proof (cases "retransmissionBufMetas s (frame_offset f)")
    case None
    then have "(retransmissionBufMetas s)(frame_offset f := None) = retransmissionBufMetas s"
      by (simp add: fun_upd_idem)
    with True None show ?thesis by (simp add: ackedChunkCleanup_def ackedChunk_def)
  next
    case (Some b)
    with True m show ?thesis
      by (simp add: ackedChunkCleanup_def ackedChunk_def ackedFrameMatches_def
            updateAckedIntervals_def)
  qed
next
  case False
  show ?thesis
  proof (cases "retransmissionBuffer s (frame_offset f)")
    case None
    then have "(retransmissionBuffer s)(frame_offset f := None) = retransmissionBuffer s"
      by (simp add: fun_upd_idem)
    with False None show ?thesis by (simp add: ackedChunkCleanup_def ackedChunk_def)
  next
    case (Some b)
    with False m show ?thesis
      by (simp add: ackedChunkCleanup_def ackedChunk_def ackedFrameMatches_def
            updateAckedIntervals_def)
  qed
qed

text \<open>
  C6 (as stated): for every stream in send state Open or ResetSent the stream-frame ack handler
  removes the acked chunk, updates the acked intervals and so on.  The handler first compares
  the frame with the chunk buffered under its offset (\<^verbatim>\<open>CHECK_EQ\<close> on offset, length and FIN);
  for a frame of 40 bytes at offset 0 and a buffered chunk of 50 bytes the check fails and the
  handler has no result.
\<close>

theorem stream_frame_ack_check_fails:
  "sendAckSMHandler (S4_stream Open [] [0 \<mapsto> S4_chunk] None) (S4_frame\<lparr>frame_len := 40\<rparr>)
     = None"
  by (simp add: sendAckSMHandler_def ackedChunkCleanup_def S4_stream_def S4_frame_def
        S4_chunk_def)

text \<open>
  C6 (amended): in send state Open or ResetSent, for an acked frame that agrees with the chunk
  buffered under its offset (the handler's \<^verbatim>\<open>CHECK_EQ\<close>s), the stream-frame ack handler succeeds; it
  erases the chunk at the frame's offset from the retransmission buffer of the frame's kind
  (byte buffer or metadata), records the chunk in the acked intervals, adds the stream to the
  deliverable set, and makes the stream Closed if and only if all bytes through FIN are acked,
  or \<^verbatim>\<open>minReliableSizeAcked\<close> is set and is 0 or all bytes through \<^verbatim>\<open>minReliableSizeAcked - 1\<close>
  are acked; otherwise the send state stays as it was.
\<close>

theorem stream_frame_acked:
  assumes st: "sendState s = Open \<or> sendState s = ResetSent"
    and chk: "ackedFrameMatches s f"
  shows "\<exists>s'. sendAckSMHandler s f = Some (Inr (), s') \<and>
     retransmissionBuffer s' =
       (if fromBufMeta f then retransmissionBuffer s
        else (retransmissionBuffer s)(frame_offset f := None)) \<and>
     retransmissionBufMetas s' =
       (if fromBufMeta f then (retransmissionBufMetas s)(frame_offset f := None)
        else retransmissionBufMetas s) \<and>
     ackedIntervals s' =
       (case ackedChunk s f of
          None \<Rightarrow> ackedIntervals s
        | Some c \<Rightarrow> ackedIntervals (updateAckedIntervals (fst c) (fst (snd c)) (snd (snd c)) s)) \<and>
     stream_id s \<in> deliverableStreams (streamManager (stream_conn s')) \<and>
     (sendState s' = Closed \<longleftrightarrow>
        allBytesTillFinAcked s' \<or>
        (case minReliableSizeAcked s' of
           None \<Rightarrow> False
         | Some m \<Rightarrow> m = 0 \<or> allBytesAckedTill s' (m - 1))) \<and>
     (sendState s' \<noteq> Closed \<longrightarrow> sendState s' = sendState s) \<and>
     minReliableSizeAcked s' = minReliableSizeAcked s \<and>
     finalWriteOffset s' = finalWriteOffset s"
proof -
  define s0 where "s0 = (case ackedChunk s f of
        None \<Rightarrow> s
      | Some c \<Rightarrow> updateAckedIntervals (fst c) (fst (snd c)) (snd (snd c)) s)"
  define s1 where "s1 = s0\<lparr>retransmissionBuffer :=
          (if fromBufMeta f then retransmissionBuffer s
           else (retransmissionBuffer s)(frame_offset f := None)),
        retransmissionBufMetas :=
          (if fromBufMeta f then (retransmissionBufMetas s)(frame_offset f := None)
           else retransmissionBufMetas s)\<rparr>"
  define s2 where "s2 = addDeliverable (stream_id s1) s1"
  define close where "close = (allBytesTillFinAcked s2 \<or> allReliableDataDelivered s2)"
  define s3 where "s3 =
     (if close
      then (if inTerminalStates (s2\<lparr>sendState := Closed\<rparr>)
            then addClosed (stream_id s2) (s2\<lparr>sendState := Closed\<rparr>)
            else s2\<lparr>sendState := Closed\<rparr>)
      else s2)"
  have c: "ackedChunkCleanup s f = Some s1"
    unfolding s1_def s0_def by (rule ackedChunkCleanup_matching[OF chk])
  have s0_flds: "stream_id s0 = stream_id s" "sendState s0 = sendState s" "stream_conn s0 = stream_conn s"
    "finalWriteOffset s0 = finalWriteOffset s" "minReliableSizeAcked s0 = minReliableSizeAcked s"
    by (simp_all add: s0_def updateAckedIntervals_def split: option.splits)
  have s0_iv: "ackedIntervals s0 =
       (case ackedChunk s f of
          None \<Rightarrow> ackedIntervals s
        | Some c \<Rightarrow> ackedIntervals (updateAckedIntervals (fst c) (fst (snd c)) (snd (snd c)) s))"
    by (simp add: s0_def split: option.splits)
  have s2_flds: "stream_id s2 = stream_id s" "sendState s2 = sendState s"
    "finalWriteOffset s2 = finalWriteOffset s" "minReliableSizeAcked s2 = minReliableSizeAcked s"
    "ackedIntervals s2 = ackedIntervals s0"
    "retransmissionBuffer s2 =
       (if fromBufMeta f then retransmissionBuffer s
        else (retransmissionBuffer s)(frame_offset f := None))"
    "retransmissionBufMetas s2 =
       (if fromBufMeta f then (retransmissionBufMetas s)(frame_offset f := None)
        else retransmissionBufMetas s)"
    "stream_id s \<in> deliverableStreams (streamManager (stream_conn s2))"
    by (simp_all add: s2_def s1_def addDeliverable_def s0_flds)
  have run: "sendAckSMHandler s f = Some (Inr (), s3)"
    using st
    by (auto simp: sendAckSMHandler_def c s2_def[symmetric] close_def[symmetric] s3_def Let_def)
  have s3_flds: "finalWriteOffset s3 = finalWriteOffset s2"
    "minReliableSizeAcked s3 = minReliableSizeAcked s2"
    "ackedIntervals s3 = ackedIntervals s2" "retransmissionBuffer s3 = retransmissionBuffer s2"
    "retransmissionBufMetas s3 = retransmissionBufMetas s2"
    "deliverableStreams (streamManager (stream_conn s3)) = deliverableStreams (streamManager (stream_conn s2))"
    by (simp_all add: s3_def addClosed_def)
  have s3_st: "sendState s3 = (if close then Closed else sendState s)"
    by (simp add: s3_def addClosed_def s2_flds)
  have pred: "allBytesTillFinAcked s3 = allBytesTillFinAcked s2"
    "(case minReliableSizeAcked s3 of
        None \<Rightarrow> False
      | Some m \<Rightarrow> m = 0 \<or> allBytesAckedTill s3 (m - 1)) = allReliableDataDelivered s2"
    by (simp_all add: allBytesTillFinAcked_def allReliableDataDelivered_def allBytesAckedTill_def
          s3_flds split: option.splits)
  have iff: "sendState s3 = Closed \<longleftrightarrow> close"
    using st by (auto simp: s3_st)
  show ?thesis
  proof (intro exI[of _ s3] conjI)
    show "sendAckSMHandler s f = Some (Inr (), s3)" by (rule run)
    show "retransmissionBuffer s3 =
       (if fromBufMeta f then retransmissionBuffer s
        else (retransmissionBuffer s)(frame_offset f := None))"
      by (simp only: s3_flds s2_flds)
    show "retransmissionBufMetas s3 =
       (if fromBufMeta f then (retransmissionBufMetas s)(frame_offset f := None)
        else retransmissionBufMetas s)"
      by (simp only: s3_flds s2_flds)
    show "ackedIntervals s3 =
       (case ackedChunk s f of
          None \<Rightarrow> ackedIntervals s
        | Some c \<Rightarrow> ackedIntervals (updateAckedIntervals (fst c) (fst (snd c)) (snd (snd c)) s))"
      by (simp only: s3_flds s2_flds s0_iv)
    show "stream_id s \<in> deliverableStreams (streamManager (stream_conn s3))"
      by (simp only: s3_flds s2_flds)
    show "(sendState s3 = Closed) =
        (allBytesTillFinAcked s3 \<or>
        (case minReliableSizeAcked s3 of
           None \<Rightarrow> False
         | Some m \<Rightarrow> m = 0 \<or> allBytesAckedTill s3 (m - 1)))"
      by (simp only: pred iff close_def)
    show "sendState s3 \<noteq> Closed \<longrightarrow> sendState s3 = sendState s"
      by (simp add: s3_st)
    show "minReliableSizeAcked s3 = minReliableSizeAcked s"
      by (simp only: s3_flds s2_flds)
    show "finalWriteOffset s3 = finalWriteOffset s"
      by (simp only: s3_flds s2_flds)
  qed
qed

theorem stream_frame_acked_witness:
  "\<exists>s'. sendAckSMHandler (S4_stream ResetSent [] [0 \<mapsto> S4_chunk] (Some 50)) S4_frame
            = Some (Inr (), s') \<and>
        retransmissionBuffer s' = Map.empty \<and>
        ackedIntervals s' = [(0, 49)] \<and>
        0 \<in> deliverableStreams (streamManager (stream_conn s')) \<and>
        sendState s' = Closed"
proof -
  let ?S = "S4_stream ResetSent [] [0 \<mapsto> S4_chunk] (Some 50)"
  have st: "sendState ?S = Open \<or> sendState ?S = ResetSent"
    by (simp add: S4_stream_def)
  have m: "ackedFrameMatches ?S S4_frame"
    by (simp add: ackedFrameMatches_def S4_stream_def S4_frame_def S4_chunk_def)
  have ch: "ackedChunk ?S S4_frame = Some (0, 50, False)"
    by (simp add: ackedChunk_def S4_stream_def S4_frame_def S4_chunk_def)
  have flds: "fromBufMeta S4_frame = False" "frame_offset S4_frame = 0"
    "retransmissionBuffer ?S = [0 \<mapsto> S4_chunk]" "ackedIntervals ?S = []"
    "minReliableSizeAcked ?S = Some 50" "stream_id ?S = 0"
    by (simp_all add: S4_stream_def S4_frame_def)
  from stream_frame_acked[OF st m] show ?thesis
    apply (elim exE conjE)
    subgoal for s'
      apply (rule exI[of _ s'])
      apply (simp add: ch flds updateAckedIntervals_def allBytesAckedTill_def)
      done
    done
qed

section \<open>Client connection state: cached parameters, parameter processing and Retry\<close>

lemma unat_ucast_u8_small: "(x :: u64) < 256 \<Longrightarrow> unat (ucast x :: u8) = unat x"
  by (simp add: unsigned_ucast_eq take_bit_nat_eq_self_iff word_less_nat_alt)

lemma ucast_u8_small: "(x :: u64) < 256 \<Longrightarrow> ucast (ucast x :: u8) = x"
  by (rule word_unat_eq_iff[THEN iffD2])
     (simp add: unsigned_ucast_eq unsigned_take_bit_eq take_bit_nat_eq_self_iff word_less_nat_alt)

lemma ucast_u8_le:
  "(x :: u64) < 256 \<Longrightarrow> (y :: u64) < 256 \<Longrightarrow> ((ucast x :: u8) \<le> ucast y) = (x \<le> y)"
  by (simp add: word_le_nat_alt unat_ucast_u8_small)

lemma mkAckReceiveTimestampsConfig_small:
  "m < 256 \<Longrightarrow> st < 256 \<Longrightarrow> x < 256 \<Longrightarrow>
   mkAckReceiveTimestampsConfig m st x =
     \<lparr>cfg_maxReceiveTimestampsPerAck = min m st, cfg_receiveTimestampsExponent = x\<rparr>"
  by (simp add: mkAckReceiveTimestampsConfig_def min_def ucast_u8_small ucast_u8_le max_def)

text \<open>
  C7 (as stated): the round trip returns the cached ack-receive-timestamps exponent.  Both
  timestamp values pass through \<^verbatim>\<open>uint8_t\<close> when they are cached: an exponent of 256 comes
  back as 0.
\<close>

theorem cached_exponent_truncated:
  "map_option receiveTimestampsExponent
     (getServerCachedTransportParameters example_cached_default
        (cacheServerInitialParams (example_client MVFST \<lparr>srtt = 0, rtxCount = 0\<rparr> [])
           1 2 3 4 5 6 True True 5 256 True 0)) = Some 0"
  by (simp add: getServerCachedTransportParameters_def cacheServerInitialParams_def
       example_cached_default_def mkAckReceiveTimestampsConfig_def)

text \<open>
  C7 (amended): \<^verbatim>\<open>getServerCachedTransportParameters\<close> after \<^verbatim>\<open>cacheServerInitialParams\<close>
  returns the cached initial max data, the three per-stream windows, the two stream limits,
  knob support, reliable-reset support, the ack-receive-timestamps flag and the extended-ack
  features unchanged.  When the flag is set, the returned maximum is the smaller of the cached
  maximum and the local ceiling, both taken modulo 256, and the returned exponent is the cached
  exponent modulo 256; for values below 256 these are the clamped maximum and the exponent
  themselves.
\<close>

theorem cache_round_trip:
  "\<exists>p. getServerCachedTransportParameters dflt
          (cacheServerInitialParams conn maxData bidiLocal bidiRemote uni streamsBidi streamsUni
             knob tsEnabled tsMax tsExponent reliableReset ackFeatures) = Some p \<and>
        initialMaxData p = maxData \<and>
        initialMaxStreamDataBidiLocal p = bidiLocal \<and>
        initialMaxStreamDataBidiRemote p = bidiRemote \<and>
        initialMaxStreamDataUni p = uni \<and>
        initialMaxStreamsBidi p = streamsBidi \<and>
        initialMaxStreamsUni p = streamsUni \<and>
        knobFrameSupport p = knob \<and>
        reliableStreamResetSupport p = reliableReset \<and>
        ackReceiveTimestampsEnabled p = tsEnabled \<and>
        extendedAckFeatures p = ackFeatures \<and>
        (tsEnabled \<longrightarrow>
           maxReceiveTimestampsPerAck p =
             ucast (min (ucast tsMax :: u8)
                        (ucast (maxReceiveTimestampsPerAckStored (transportSettings conn)) :: u8)) \<and>
           receiveTimestampsExponent p = ucast (ucast tsExponent :: u8)) \<and>
        (tsEnabled \<longrightarrow> tsMax < 256 \<longrightarrow>
           maxReceiveTimestampsPerAckStored (transportSettings conn) < 256 \<longrightarrow> tsExponent < 256 \<longrightarrow>
           maxReceiveTimestampsPerAck p =
             min tsMax (maxReceiveTimestampsPerAckStored (transportSettings conn)) \<and>
           receiveTimestampsExponent p = tsExponent)"
proof (cases tsEnabled)
  case True
  then show ?thesis
    by (simp add: getServerCachedTransportParameters_def cacheServerInitialParams_def
          mkAckReceiveTimestampsConfig_def min_def ucast_u8_small ucast_u8_le)
next
  case False
  then show ?thesis
    by (simp add: getServerCachedTransportParameters_def cacheServerInitialParams_def)
qed

theorem cache_round_trip_witness:
  "\<exists>p. getServerCachedTransportParameters example_cached_default
          (cacheServerInitialParams (example_client MVFST \<lparr>srtt = 0, rtxCount = 0\<rparr> [])
             1 2 3 4 5 6 True True 50 3 True 7) = Some p \<and>
        initialMaxData p = 1 \<and> initialMaxStreamDataBidiLocal p = 2 \<and>
        initialMaxStreamDataBidiRemote p = 3 \<and> initialMaxStreamDataUni p = 4 \<and>
        initialMaxStreamsBidi p = 5 \<and> initialMaxStreamsUni p = 6 \<and>
        knobFrameSupport p \<and> reliableStreamResetSupport p \<and> ackReceiveTimestampsEnabled p \<and>
        extendedAckFeatures p = 7 \<and> maxReceiveTimestampsPerAck p = 10 \<and>
        receiveTimestampsExponent p = 3"
proof -
  have st: "maxReceiveTimestampsPerAckStored
              (transportSettings (example_client MVFST \<lparr>srtt = 0, rtxCount = 0\<rparr> [])) = 10"
    by (simp add: example_client_def example_transportSettings_def)
  from cache_round_trip
         [of example_cached_default "example_client MVFST \<lparr>srtt = 0, rtxCount = 0\<rparr> []"
             1 2 3 4 5 6 True True 50 3 True 7]
  show ?thesis
    apply (elim exE conjE)
    subgoal for p
      apply (rule exI[of _ p])
      apply (simp add: st)
      done
    done
qed

lemma connIdError_flag:
  "connIdError (conn\<lparr>peerAdvertisedReliableStreamResetSupport := b\<rparr>) sp = connIdError conn sp"
  by (simp add: connIdError_def split: sum.splits)

lemma process_reaches_apply:
  assumes "decodeError sp = None"
    and "rawParameter sp reliable_stream_reset = None \<or> rawParameter sp reliable_stream_reset = Some []"
    and "connIdError conn sp = None"
  shows "processServerInitialParams K conn sp pn =
           applyServerParams K
             (conn\<lparr>peerAdvertisedReliableStreamResetSupport :=
                     (rawParameter sp reliable_stream_reset \<noteq> None)\<rparr>) sp pn"
  using assms by (auto simp: processServerInitialParams_def connIdError_flag Let_def)

lemma apply_too_small:
  assumes "effectivePacketSize (decoded sp max_packet_size) < kMinMaxUDPPayload"
  shows "applyServerParams K conn sp pn =
     (Inl (QuicError TRANSPORT_PARAMETER_ERROR
             (''Max packet size too small. received max_packetSize = '' @
              decimal (unat (effectivePacketSize (decoded sp max_packet_size))))), conn)"
  using assms by (simp add: applyServerParams_def Let_def)

lemma andThen_not_error:
  "fst r \<noteq> Inl e \<Longrightarrow> (\<And>c. fst (k c) \<noteq> Inl e) \<Longrightarrow> fst (andThen r k) \<noteq> Inl e"
  by (auto simp: andThen_def split: sum.splits)

lemma steps_no_size_error:
  "fst (applyFlowControlAndStreamLimits K sp conn) \<noteq>
     Inl (QuicError TRANSPORT_PARAMETER_ERROR
            (''Max packet size too small. received max_packetSize = '' @ m))"
  "fst (applyTimersAndLimits K sp ps conn) \<noteq>
     Inl (QuicError TRANSPORT_PARAMETER_ERROR
            (''Max packet size too small. received max_packetSize = '' @ m))"
  "fst (applyStreamWindows pn conn) \<noteq>
     Inl (QuicError TRANSPORT_PARAMETER_ERROR
            (''Max packet size too small. received max_packetSize = '' @ m))"
  "fst (applyExtensions sp conn) \<noteq>
     Inl (QuicError TRANSPORT_PARAMETER_ERROR
            (''Max packet size too small. received max_packetSize = '' @ m))"
  by (simp_all add: applyFlowControlAndStreamLimits_def applyTimersAndLimits_def
        applyStreamWindows_def applyExtensions_def Let_def setMaxLocalBidirectionalStreams_def
        setMaxLocalUnidirectionalStreams_def)

lemma apply_not_too_small:
  assumes "\<not> effectivePacketSize (decoded sp max_packet_size) < kMinMaxUDPPayload"
  shows "fst (applyServerParams K conn sp pn) \<noteq>
     Inl (QuicError TRANSPORT_PARAMETER_ERROR
            (''Max packet size too small. received max_packetSize = '' @ m))"
proof -
  from assms have "applyServerParams K conn sp pn =
      andThen (andThen (andThen (applyFlowControlAndStreamLimits K sp conn)
                 (applyTimersAndLimits K sp (effectivePacketSize (decoded sp max_packet_size))))
                 (applyStreamWindows pn))
        (applyExtensions sp)"
    by (simp add: applyServerParams_def Let_def)
  then show ?thesis
    by (simp only:) (intro andThen_not_error steps_no_size_error)
qed

lemma andThen_success:
  "fst (andThen r k) = Inr () \<Longrightarrow> fst r = Inr () \<and> fst (k (snd r)) = Inr ()"
  by (auto simp: andThen_def split: sum.splits)

lemma andThen_snd:
  "fst r = Inr () \<Longrightarrow> andThen r k = k (snd r)"
  by (simp add: andThen_def)

lemma flow_keeps:
  "udpSendPacketLen (snd (applyFlowControlAndStreamLimits K sp conn)) = udpSendPacketLen conn"
  "transportSettings (snd (applyFlowControlAndStreamLimits K sp conn)) = transportSettings conn"
  by (simp_all add: applyFlowControlAndStreamLimits_def Let_def split: sum.splits)

lemma timers_sets:
  "fst (applyTimersAndLimits K sp ps conn) = Inr () \<Longrightarrow>
   udpSendPacketLen (snd (applyTimersAndLimits K sp ps conn)) =
     (if canIgnorePathMTU (transportSettings conn) then min ps (kDefaultMaxUDPPayload K)
      else udpSendPacketLen conn)"
  by (simp add: applyTimersAndLimits_def Let_def split: option.splits if_splits)

lemma windows_keeps:
  "udpSendPacketLen (snd (applyStreamWindows pn conn)) = udpSendPacketLen conn"
  by (simp add: applyStreamWindows_def)

lemma extensions_keeps:
  "udpSendPacketLen (snd (applyExtensions sp conn)) = udpSendPacketLen conn"
  by (simp add: applyExtensions_def Let_def split: option.splits)

lemma apply_success_packet_len:
  assumes ok: "fst (applyServerParams K conn sp pn) = Inr ()"
    and mtu: "canIgnorePathMTU (transportSettings conn)"
  shows "udpSendPacketLen (snd (applyServerParams K conn sp pn)) =
           min (effectivePacketSize (decoded sp max_packet_size)) (kDefaultMaxUDPPayload K)"
proof -
  let ?ps = "effectivePacketSize (decoded sp max_packet_size)"
  let ?a = "applyFlowControlAndStreamLimits K sp conn"
  let ?b = "andThen ?a (applyTimersAndLimits K sp ?ps)"
  let ?c = "andThen ?b (applyStreamWindows pn)"
  from ok have big: "\<not> ?ps < kMinMaxUDPPayload"
    by (auto simp: applyServerParams_def Let_def split: if_splits)
  then have eq: "applyServerParams K conn sp pn = andThen ?c (applyExtensions sp)"
    by (simp add: applyServerParams_def Let_def)
  with ok have "fst (andThen ?c (applyExtensions sp)) = Inr ()" by simp
  from andThen_success[OF this] have c: "fst ?c = Inr ()" by simp
  from andThen_success[OF c] have b: "fst ?b = Inr ()" by simp
  from andThen_success[OF b] have a: "fst ?a = Inr ()"
    and t: "fst (applyTimersAndLimits K sp ?ps (snd ?a)) = Inr ()" by simp_all
  have "udpSendPacketLen (snd (applyServerParams K conn sp pn)) = udpSendPacketLen (snd ?c)"
    by (simp add: eq andThen_snd[OF c] extensions_keeps)
  also have "\<dots> = udpSendPacketLen (snd ?b)"
    by (simp add: andThen_snd[OF b] windows_keeps)
  also have "\<dots> = udpSendPacketLen (snd (applyTimersAndLimits K sp ?ps (snd ?a)))"
    by (simp add: andThen_snd[OF a])
  also have "\<dots> = min ?ps (kDefaultMaxUDPPayload K)"
    using timers_sets[OF t] mtu by (simp add: flow_keeps)
  finally show ?thesis .
qed


lemma effective_default:
  "p = None \<or> p = Some 0 \<Longrightarrow> effectivePacketSize p = 1252"
  by (auto simp: effectivePacketSize_def kDefaultUDPSendPacketLen_def)

lemma effective_received:
  "n \<noteq> 0 \<Longrightarrow> effectivePacketSize (Some n) = n"
  by (simp add: effectivePacketSize_def)

text \<open>
  C8 (as stated): server parameters with \<^verbatim>\<open>max_packet_size\<close> below 1200 make
  \<^verbatim>\<open>processServerInitialParams\<close> fail with an error message that names the received size.
  The checks in front of the size test return first: on a QUIC v1 connection, parameters that
  hold only \<^verbatim>\<open>max_packet_size = 1000\<close> (scenario S5) fail with "Initial CID does not match.".
\<close>

theorem size_error_preempted:
  "fst (processServerInitialParams example_constants
          (example_client QUIC_V1 \<lparr>srtt = 0, rtxCount = 0\<rparr> [])
          (only_max_packet_size (Some 1000)) 0)
   = Inl (QuicError TRANSPORT_PARAMETER_ERROR ''Initial CID does not match.'')"
  by (simp add: processServerInitialParams_def decodeError_def decodedFirst_def
        decodedAfterToken_def only_max_packet_size_def connIdError_def example_client_def)

text \<open>
  C8 (amended): when decoding the parameters raised no error, the reliable-reset parameter is
  absent or empty and the connection-id check passed, an absent or zero \<^verbatim>\<open>max_packet_size\<close>
  is replaced by the default 1252 (no size error is returned, and on success with
  \<^verbatim>\<open>canIgnorePathMTU\<close> the UDP send packet length becomes the smaller of 1252 and
  \<^verbatim>\<open>kDefaultMaxUDPPayload\<close>), and a received size below the minimum 1200 makes
  \<^verbatim>\<open>processServerInitialParams\<close> fail with \<^verbatim>\<open>TRANSPORT_PARAMETER_ERROR\<close> and the message
  "Max packet size too small. received max_packetSize = " followed by the received size.
\<close>

theorem max_packet_size_rule:
  assumes dec: "decodeError sp = None"
    and rel: "rawParameter sp reliable_stream_reset = None \<or>
              rawParameter sp reliable_stream_reset = Some []"
    and cid: "connIdError conn sp = None"
  shows "(decoded sp max_packet_size = None \<or> decoded sp max_packet_size = Some 0 \<longrightarrow>
            effectivePacketSize (decoded sp max_packet_size) = 1252 \<and>
            fst (processServerInitialParams K conn sp pn) \<noteq>
              Inl (QuicError TRANSPORT_PARAMETER_ERROR
                     (''Max packet size too small. received max_packetSize = '' @ m)) \<and>
            (fst (processServerInitialParams K conn sp pn) = Inr () \<longrightarrow>
             canIgnorePathMTU (transportSettings conn) \<longrightarrow>
               udpSendPacketLen (snd (processServerInitialParams K conn sp pn)) =
                 min 1252 (kDefaultMaxUDPPayload K))) \<and>
         (decoded sp max_packet_size = Some n \<longrightarrow> n \<noteq> 0 \<longrightarrow> n < 1200 \<longrightarrow>
            fst (processServerInitialParams K conn sp pn) =
              Inl (QuicError TRANSPORT_PARAMETER_ERROR
                     (''Max packet size too small. received max_packetSize = '' @
                      decimal (unat n))))"
proof -
  let ?conn = "conn\<lparr>peerAdvertisedReliableStreamResetSupport :=
                     (rawParameter sp reliable_stream_reset \<noteq> None)\<rparr>"
  note run = process_reaches_apply[OF dec rel cid, of K pn]
  have ts: "transportSettings ?conn = transportSettings conn" by simp
  have dflt: "effectivePacketSize (decoded sp max_packet_size) = 1252 \<and>
            fst (processServerInitialParams K conn sp pn) \<noteq>
              Inl (QuicError TRANSPORT_PARAMETER_ERROR
                     (''Max packet size too small. received max_packetSize = '' @ m)) \<and>
            (fst (processServerInitialParams K conn sp pn) = Inr () \<longrightarrow>
             canIgnorePathMTU (transportSettings conn) \<longrightarrow>
               udpSendPacketLen (snd (processServerInitialParams K conn sp pn)) =
                 min 1252 (kDefaultMaxUDPPayload K))"
    if absent: "decoded sp max_packet_size = None \<or> decoded sp max_packet_size = Some 0"
  proof -
    from effective_default[OF absent]
    have e: "effectivePacketSize (decoded sp max_packet_size) = 1252" .
    then have big: "\<not> effectivePacketSize (decoded sp max_packet_size) < kMinMaxUDPPayload"
      by (simp add: kMinMaxUDPPayload_def)
    have ne: "fst (processServerInitialParams K conn sp pn) \<noteq>
              Inl (QuicError TRANSPORT_PARAMETER_ERROR
                     (''Max packet size too small. received max_packetSize = '' @ m))"
      unfolding run by (rule apply_not_too_small[OF big])
    have len: "udpSendPacketLen (snd (processServerInitialParams K conn sp pn)) =
                 min 1252 (kDefaultMaxUDPPayload K)"
      if "fst (processServerInitialParams K conn sp pn) = Inr ()"
        and "canIgnorePathMTU (transportSettings conn)"
      using apply_success_packet_len[of K ?conn sp pn] that e unfolding run by simp
    from e ne len show ?thesis by blast
  qed
  have small: "fst (processServerInitialParams K conn sp pn) =
              Inl (QuicError TRANSPORT_PARAMETER_ERROR
                     (''Max packet size too small. received max_packetSize = '' @
                      decimal (unat n)))"
    if "decoded sp max_packet_size = Some n" "n \<noteq> 0" "n < 1200"
  proof -
    from that have e: "effectivePacketSize (decoded sp max_packet_size) = n"
      by (simp add: effective_received)
    with that have "effectivePacketSize (decoded sp max_packet_size) < kMinMaxUDPPayload"
      by (simp add: kMinMaxUDPPayload_def)
    from apply_too_small[OF this, of K ?conn pn] e show ?thesis
      unfolding run by simp
  qed
  from dflt small show ?thesis by blast
qed

theorem max_packet_size_rule_witness:
  "fst (processServerInitialParams example_constants
          (example_client MVFST \<lparr>srtt = 0, rtxCount = 0\<rparr> [])
          (only_max_packet_size (Some 1000)) 0)
     = Inl (QuicError TRANSPORT_PARAMETER_ERROR
              ''Max packet size too small. received max_packetSize = 1000'') \<and>
   fst (processServerInitialParams example_constants
          (example_client MVFST \<lparr>srtt = 0, rtxCount = 0\<rparr> [])
          (only_max_packet_size None) 0) = Inr () \<and>
   udpSendPacketLen (snd (processServerInitialParams example_constants
          (example_client MVFST \<lparr>srtt = 0, rtxCount = 0\<rparr> [])
          (only_max_packet_size None) 0)) = 1252"
proof -
  let ?conn = "example_client MVFST \<lparr>srtt = 0, rtxCount = 0\<rparr> []"
  have dec: "decodeError (only_max_packet_size x) = None" for x
    by (simp add: decodeError_def decodedFirst_def decodedAfterToken_def only_max_packet_size_def)
  have rel: "rawParameter (only_max_packet_size x) reliable_stream_reset = None \<or>
             rawParameter (only_max_packet_size x) reliable_stream_reset = Some []" for x
    by (simp add: only_max_packet_size_def)
  have cid: "connIdError ?conn (only_max_packet_size x) = None" for x
    by (simp add: connIdError_def example_client_def)
  have d: "decoded (only_max_packet_size x) max_packet_size = x" for x
    by (simp add: decoded_def only_max_packet_size_def)
  have others: "decoded (only_max_packet_size x) i = (if i = max_packet_size then x else None)"
    for x i
    by (simp add: decoded_def only_max_packet_size_def)
  have mtu: "canIgnorePathMTU (transportSettings ?conn)"
    by (simp add: example_client_def example_transportSettings_def)
  have k: "kDefaultMaxUDPPayload example_constants = 1452"
    by (simp add: example_constants_def)
  have ok: "fst (processServerInitialParams example_constants ?conn (only_max_packet_size None) 0)
              = Inr ()"
    unfolding process_reaches_apply[OF dec rel cid]
    by (simp add: applyServerParams_def Let_def andThen_def others effectivePacketSize_def
          kDefaultUDPSendPacketLen_def kMinMaxUDPPayload_def applyFlowControlAndStreamLimits_def
          applyTimersAndLimits_def applyStreamWindows_def applyExtensions_def value_or_def
          setMaxLocalBidirectionalStreams_def setMaxLocalUnidirectionalStreams_def
          example_constants_def example_client_def)
  have dec1000: "decimal 1000 = ''1000''"
    by (simp add: decimal.simps)
  from max_packet_size_rule
         [where sp = "only_max_packet_size (Some 1000)" and conn = ?conn and n = 1000 and
            K = example_constants and pn = 0, OF dec rel cid]
  have small: "fst (processServerInitialParams example_constants ?conn
                      (only_max_packet_size (Some 1000)) 0)
     = Inl (QuicError TRANSPORT_PARAMETER_ERROR
              ''Max packet size too small. received max_packetSize = 1000'')"
    by (simp add: d dec1000)
  from max_packet_size_rule
         [where sp = "only_max_packet_size None" and conn = ?conn and K = example_constants and
            pn = 0, OF dec rel cid] ok mtu
  have len: "udpSendPacketLen (snd (processServerInitialParams example_constants ?conn
          (only_max_packet_size None) 0)) = 1252"
    by (simp add: d k)
  from small ok len show ?thesis by simp
qed








section \<open>Round-robin scheduler: the index and what it shows\<close>

subsection \<open>The list primitives at a node that occurs once\<close>

lemma list_insert_Some:
  "a \<notin> fst ` set B \<Longrightarrow> list_insert (Some a) n (B @ (a, c) # R) = B @ n # (a, c) # R"
  by (induction B) auto

lemma list_insert_None: "list_insert None n l = l @ [n]"
  by (induction l) auto

lemma list_erase_at:
  "a \<notin> fst ` set B \<Longrightarrow> list_erase a (B @ (a, c) # R) = (B @ R, list_begin R)"
  by (induction B) auto

lemma list_next_at:
  "a \<notin> fst ` set B \<Longrightarrow> list_next a (B @ (a, c) # R) = list_begin R"
  by (induction B) auto

lemma map_of_at:
  "a \<notin> fst ` set B \<Longrightarrow> map_of (B @ (a, c) # R) a = Some c"
  by (induction B) auto

lemma takeWhile_at:
  "a \<notin> fst ` set B \<Longrightarrow> takeWhile (\<lambda>x. fst x \<noteq> a) (B @ (a, c) # R) = B"
  by (induction B) auto

lemma dropWhile_at:
  "a \<notin> fst ` set B \<Longrightarrow> dropWhile (\<lambda>x. fst x \<noteq> a) (B @ (a, c) # R) = (a, c) # R"
  by (induction B) auto

lemma before_at:
  "a \<notin> fst ` set B \<Longrightarrow> nodes_before (Some a) (B @ (a, c) # R) = B"
  by (simp add: nodes_before_def takeWhile_at)

lemma after_at:
  "a \<notin> fst ` set B \<Longrightarrow> nodes_after (Some a) (B @ (a, c) # R) = R"
  by (simp add: nodes_after_def dropWhile_at)

lemma find_hit:
  "P y \<Longrightarrow> \<forall>x \<in> set xs. \<not> P x \<Longrightarrow> find P (xs @ y # ys) = Some y"
  by (induction xs) auto

lemma find_miss: "\<forall>x \<in> set xs. \<not> P x \<Longrightarrow> find P xs = None"
  by (induction xs) auto

lemma inv_shape:
  assumes "rr_inv s" and "list_rr s \<noteq> []"
  obtains B a c R where "list_rr s = B @ (a, c) # R" and "nextIt_rr s = Some a"
    and "a \<notin> fst ` set B" and "a \<notin> fst ` set R"
proof -
  from assms obtain a where a: "nextIt_rr s = Some a" "a \<in> fst ` set (list_rr s)"
    by (auto simp: rr_inv_def)
  then obtain c where "(a, c) \<in> set (list_rr s)" by auto
  then obtain B R where l: "list_rr s = B @ (a, c) # R" by (meson split_list)
  from assms(1) have "distinct (map fst (list_rr s))" by (simp add: rr_inv_def)
  with l have "a \<notin> fst ` set B" "a \<notin> fst ` set R" by auto
  with l a that show ?thesis by blast
qed

lemma inv_empty: "rr_inv s \<Longrightarrow> list_rr s = [] \<Longrightarrow> nextIt_rr s = None"
  by (auto simp: rr_inv_def)

lemma view_shape:
  "list_rr s = B @ (a, c) # R \<Longrightarrow> nextIt_rr s = Some a \<Longrightarrow> a \<notin> fst ` set B \<Longrightarrow>
   rr_view_of s = \<lparr>seen = map snd B, todo = c # map snd R, mode = advanceType_rr s,
                   threshold = advanceAfter_rr s, counter = current_rr s\<rparr>"
  by (simp add: rr_view_of_def before_at dropWhile_at)

lemma view_empty:
  "list_rr s = [] \<Longrightarrow>
   rr_view_of s = \<lparr>seen = [], todo = [], mode = advanceType_rr s,
                   threshold = advanceAfter_rr s, counter = current_rr s\<rparr>"
  by (simp add: rr_view_of_def nodes_before_def)

subsection \<open>Operations that leave the list alone: advance modes, clear, peekNext, getNext\<close>

lemma view_at_begin:
  assumes "list_rr s \<noteq> []" and "nextIt_rr s = list_begin (list_rr s)"
  shows "rr_view_of s = \<lparr>seen = [], todo = map snd (list_rr s), mode = advanceType_rr s,
                          threshold = advanceAfter_rr s, counter = current_rr s\<rparr>"
proof -
  from assms(1) obtain x xs where l: "list_rr s = x # xs" by (cases "list_rr s") auto
  with assms(2) have "nextIt_rr s = Some (fst x)" by (simp add: list_begin_def)
  with l show ?thesis by (simp add: rr_view_of_def nodes_before_def)
qed

lemma view_values: "seen (rr_view_of s) @ todo (rr_view_of s) = map snd (list_rr s)"
  by (simp add: rr_view_of_def nodes_before_def flip: map_append)

lemma rr_inv_cong:
  "list_rr s' = list_rr s \<Longrightarrow> nextIt_rr s' = nextIt_rr s \<Longrightarrow> fresh_rr s' = fresh_rr s \<Longrightarrow>
   useIndexMap_rr s' = useIndexMap_rr s \<Longrightarrow> indexMap_rr s' = indexMap_rr s \<Longrightarrow>
   rr_inv s' = rr_inv s"
  by (simp add: rr_inv_def)

lemma rr_inv_cursor:
  "rr_inv s \<Longrightarrow> list_rr s' = list_rr s \<Longrightarrow> nextIt_rr s' \<in> Some ` fst ` set (list_rr s) \<Longrightarrow>
   fresh_rr s' = fresh_rr s \<Longrightarrow> useIndexMap_rr s' = useIndexMap_rr s \<Longrightarrow>
   indexMap_rr s' = indexMap_rr s \<Longrightarrow> rr_inv s'"
  by (auto simp: rr_inv_def)

lemma inv_advanceAfterNext: "rr_inv s \<Longrightarrow> rr_inv (advanceAfterNext n s)"
  by (simp add: rr_inv_def advanceAfterNext_def Let_def)

lemma inv_advanceAfterBytes: "rr_inv s \<Longrightarrow> rr_inv (advanceAfterBytes n s)"
  by (simp add: rr_inv_def advanceAfterBytes_def Let_def)

lemma deref_shape:
  "list_rr s = B @ (a, c) # R \<Longrightarrow> nextIt_rr s = Some a \<Longrightarrow> a \<notin> fst ` set B \<Longrightarrow>
   list_deref (list_rr s) (nextIt_rr s) = Some c"
  by (simp add: list_deref_def map_of_at del: map_of_append)

lemma view_advanceAfterNext:
  "rr_view_of (advanceAfterNext n s) = spec_advanceAfterNext n (rr_view_of s)"
  by (simp add: rr_view_of_def advanceAfterNext_def spec_advanceAfterNext_def Let_def)

lemma view_advanceAfterBytes:
  "rr_view_of (advanceAfterBytes n s) = spec_advanceAfterBytes n (rr_view_of s)"
  by (simp add: rr_view_of_def advanceAfterBytes_def spec_advanceAfterBytes_def Let_def)

lemma inv_clear: "rr_inv (RoundRobin_clear s)" if "rr_inv s"
  using that by (auto simp: rr_inv_def RoundRobin_clear_def Let_def)

lemma view_clear: "rr_view_of (RoundRobin_clear s) = spec_clear (rr_view_of s)"
  by (simp add: rr_view_of_def RoundRobin_clear_def spec_clear_def Let_def nodes_before_def)

lemma sim_peekNext:
  assumes "rr_inv s"
  shows "peekNext s = spec_peekNext (rr_view_of s)"
proof (cases "list_rr s = []")
  case True
  then show ?thesis by (simp add: peekNext_def spec_peekNext_def view_empty)
next
  case False
  from inv_shape[OF assms False] obtain B a c R where
    sh: "list_rr s = B @ (a, c) # R" "nextIt_rr s = Some a" "a \<notin> fst ` set B" "a \<notin> fst ` set R"
    by blast
  from False show ?thesis
    by (simp add: peekNext_def spec_peekNext_def view_shape[OF sh(1-3)] deref_shape[OF sh(1-3)])
qed

text \<open>The cursor after \<^verbatim>\<open>++nextIt_\<close> with wrap-around.\<close>

lemma advance_view:
  assumes sh: "list_rr s = B @ (a, c) # R" "a \<notin> fst ` set B" "distinct (map fst (list_rr s))"
    and nx: "nextIt_rr s' = (if list_begin R = None then list_begin (list_rr s) else list_begin R)"
    and same: "list_rr s' = list_rr s"
  shows "seen (rr_view_of s') = (if R = [] then [] else map snd B @ [c]) \<and>
         todo (rr_view_of s') = (if R = [] then map snd B @ [c] else map snd R) \<and>
         nextIt_rr s' \<in> Some ` fst ` set (list_rr s)"
proof (cases R)
  case Nil
  with nx have n: "nextIt_rr s' = list_begin (list_rr s')" by (simp add: list_begin_def same)
  have ne: "list_rr s' \<noteq> []" by (simp add: same sh(1))
  from view_at_begin[OF ne n] Nil sh(1) same
  have "seen (rr_view_of s') = (if R = [] then [] else map snd B @ [c])"
    and "todo (rr_view_of s') = (if R = [] then map snd B @ [c] else map snd R)"
    by simp_all
  moreover from n ne same have "nextIt_rr s' \<in> Some ` fst ` set (list_rr s)"
    by (cases "list_rr s") (auto simp: list_begin_def)
  ultimately show ?thesis by simp
next
  case (Cons y R2)
  obtain a2 c2 where y: "y = (a2, c2)" by (cases y)
  with Cons nx have n: "nextIt_rr s' = Some a2" by (simp add: list_begin_def)
  from sh(1) Cons y same have l: "list_rr s' = (B @ [(a, c)]) @ (a2, c2) # R2" by simp
  from sh(3) sh(1) Cons y have "a2 \<notin> fst ` set (B @ [(a, c)])" by auto
  from view_shape[OF l n this] Cons
  have "seen (rr_view_of s') = (if R = [] then [] else map snd B @ [c])"
    and "todo (rr_view_of s') = (if R = [] then map snd B @ [c] else map snd R)"
    by (simp_all add: y)
  moreover from n sh(1) Cons y have "nextIt_rr s' \<in> Some ` fst ` set (list_rr s)" by force
  ultimately show ?thesis by simp
qed

lemma sim_getNext:
  assumes inv: "rr_inv s"
  shows "(case getNext b s of
            Inl e \<Rightarrow> spec_getNext b (rr_view_of s) = Inl e
          | Inr (v, s') \<Rightarrow> spec_getNext b (rr_view_of s) = Inr (v, rr_view_of s') \<and> rr_inv s')"
proof (cases "list_rr s = []")
  case True
  then show ?thesis by (simp add: getNext_def spec_getNext_def view_empty)
next
  case False
  from inv_shape[OF inv False] obtain B a c R where
    sh: "list_rr s = B @ (a, c) # R" "nextIt_rr s = Some a" "a \<notin> fst ` set B" "a \<notin> fst ` set R"
    by blast
  from inv have d: "distinct (map fst (list_rr s))" by (simp add: rr_inv_def)
  define n where "n = (if advanceType_rr s = Bytes
                       then current_rr s + (case b of None \<Rightarrow> 0 | Some x \<Rightarrow> x)
                       else current_rr s + 1)"
  have cons: "consume b s = maybeAdvance (s\<lparr>current_rr := n\<rparr>)"
    by (simp add: consume_def n_def)
  have deref: "list_deref (list_rr s) (nextIt_rr s) = Some c"
    by (rule deref_shape[OF sh(1-3)])
  let ?V = "\<lparr>seen = map snd B, todo = c # map snd R, mode = advanceType_rr s,
              threshold = advanceAfter_rr s, counter = current_rr s\<rparr>"
  have vw: "rr_view_of s = ?V" by (rule view_shape[OF sh(1-3)])
  have sp_unfold: "spec_getNext b ?V =
      (if advanceAfter_rr s \<le> n
       then Inr (c, \<lparr>seen = (if R = [] then [] else map snd B @ [c]),
                     todo = (if R = [] then map snd B @ [c] else map snd R),
                     mode = advanceType_rr s, threshold = advanceAfter_rr s, counter = 0\<rparr>)
       else Inr (c, ?V\<lparr>counter := n\<rparr>))"
    by (simp add: spec_getNext_def n_def Let_def)
  show ?thesis
  proof (cases "advanceAfter_rr s \<le> n")
    case False
    then have "getNext b s = Inr (c, s\<lparr>current_rr := n\<rparr>)"
      using \<open>list_rr s \<noteq> []\<close> by (simp add: getNext_def deref cons maybeAdvance_def)
    moreover have "rr_view_of (s\<lparr>current_rr := n\<rparr>) = (rr_view_of s)\<lparr>counter := n\<rparr>"
      by (simp add: rr_view_of_def)
    then have "spec_getNext b (rr_view_of s) = Inr (c, rr_view_of (s\<lparr>current_rr := n\<rparr>))"
      using False by (simp add: vw sp_unfold)
    moreover have "rr_inv (s\<lparr>current_rr := n\<rparr>)"
      using inv by (simp add: rr_inv_cong[of "s\<lparr>current_rr := n\<rparr>" s])
    ultimately show ?thesis by simp
  next
    case True
    define s' where "s' = s\<lparr>nextIt_rr := (if list_begin R = None then list_begin (list_rr s)
                                             else list_begin R), current_rr := 0\<rparr>"
    have nxt: "list_next a (list_rr s) = list_begin R"
      by (simp add: sh(1) list_next_at[OF sh(3)])
    have g: "getNext b s = Inr (c, s')"
      using True \<open>list_rr s \<noteq> []\<close>
      by (simp add: getNext_def deref deref[unfolded sh(2)] cons maybeAdvance_def sh(2) nxt
            s'_def Let_def)
    have nx: "nextIt_rr s' = (if list_begin R = None then list_begin (list_rr s) else list_begin R)"
      and same: "list_rr s' = list_rr s"
      by (simp_all add: s'_def)
    note av = advance_view[OF sh(1) sh(3) d nx same]
    have other: "mode (rr_view_of s') = advanceType_rr s" "threshold (rr_view_of s') = advanceAfter_rr s"
      "counter (rr_view_of s') = 0"
      by (simp_all add: rr_view_of_def s'_def)
    have "rr_view_of s' = \<lparr>seen = (if R = [] then [] else map snd B @ [c]),
        todo = (if R = [] then map snd B @ [c] else map snd R), mode = advanceType_rr s,
        threshold = advanceAfter_rr s, counter = 0\<rparr>"
      using av other by (cases "rr_view_of s'") simp
    then have sp: "spec_getNext b (rr_view_of s) = Inr (c, rr_view_of s')"
      using True by (simp add: vw sp_unfold)
    have "rr_inv s'"
      using inv av by (intro rr_inv_cursor[of s s']) (simp_all add: s'_def)
    with g sp show ?thesis by simp
  qed
qed

subsection \<open>Erasing a node\<close>

lemma view_index_irrelevant:
  "rr_view_of (s\<lparr>useIndexMap_rr := u, indexMap_rr := m\<rparr>) = rr_view_of s"
  "rr_view_of (s\<lparr>indexMap_rr := m\<rparr>) = rr_view_of s"
  by (simp_all add: rr_view_of_def)

text \<open>What \<^verbatim>\<open>erase(iterator)\<close> does to each member, for a node that is in the list.\<close>

lemma erase_it_members:
  assumes l: "list_rr s = X @ (b, v) # Y" and nb: "b \<notin> fst ` set X"
  shows "list_rr (erase_it (Some b) s) = X @ Y"
    and "nextIt_rr (erase_it (Some b) s) =
           (if Some b = nextIt_rr s
            then (if list_begin Y = None then list_begin (X @ Y) else list_begin Y)
            else nextIt_rr s)"
    and "current_rr (erase_it (Some b) s) = (if Some b = nextIt_rr s then 0 else current_rr s)"
    and "useIndexMap_rr (erase_it (Some b) s) =
           (useIndexMap_rr s \<and> \<not> length (X @ Y) < kDestroyIndexThreshold)"
    and "indexMap_rr (erase_it (Some b) s) =
           (if length (X @ Y) < kDestroyIndexThreshold then Map.empty else indexMap_rr s)"
    and "advanceType_rr (erase_it (Some b) s) = advanceType_rr s"
    and "advanceAfter_rr (erase_it (Some b) s) = advanceAfter_rr s"
    and "fresh_rr (erase_it (Some b) s) = fresh_rr s"
  using list_erase_at[OF nb, of v Y]
  by (simp_all add: erase_it_def l Let_def)

lemma rev_remove1_last:
  "v \<notin> set ys \<Longrightarrow> rev (remove1 v (rev (xs @ v # ys))) = xs @ ys"
  by (simp add: remove1_append)

lemma remove1_first:
  "v \<notin> set xs \<Longrightarrow> remove1 v (xs @ v # ys) = xs @ ys"
  by (simp add: remove1_append)

lemma view_eqI:
  "seen a = seen b \<Longrightarrow> todo a = todo b \<Longrightarrow> mode a = mode b \<Longrightarrow> threshold a = threshold b \<Longrightarrow>
   counter a = counter b \<Longrightarrow> (a :: rr_view) = b"
  by simp

lemma view_fields:
  "mode (rr_view_of s) = advanceType_rr s" "threshold (rr_view_of s) = advanceAfter_rr s"
  "counter (rr_view_of s) = current_rr s"
  by (simp_all add: rr_view_of_def)

text \<open>Erasing the node under the cursor.\<close>

lemma erase_cursor_view:
  assumes sh: "list_rr s = B @ (a, c) # R" "nextIt_rr s = Some a" "a \<notin> fst ` set B"
    and d: "distinct (map fst (list_rr s))"
  shows "spec_erase c (rr_view_of s) = (True, rr_view_of (erase_it (Some a) s))"
proof -
  let ?s' = "erase_it (Some a) s"
  note m = erase_it_members[OF sh(1) sh(3)]
  have nx: "nextIt_rr ?s' = (if list_begin R = None then list_begin (B @ R) else list_begin R)"
    by (simp add: m sh(2))
  have st: "seen (rr_view_of ?s') = (if R = [] then [] else map snd B) \<and>
            todo (rr_view_of ?s') = (if R = [] then map snd B else map snd R)"
  proof (cases R)
    case Nil
    show ?thesis
    proof (cases "B = []")
      case True
      with Nil m(1) have "list_rr ?s' = []" by simp
      from view_empty[OF this] Nil True show ?thesis by simp
    next
      case False
      with Nil m(1) have ne: "list_rr ?s' \<noteq> []" by simp
      from nx Nil m(1) have "nextIt_rr ?s' = list_begin (list_rr ?s')"
        by (simp add: list_begin_def)
      from view_at_begin[OF ne this] Nil m(1) show ?thesis by simp
    qed
  next
    case (Cons y R2)
    obtain a2 c2 where y: "y = (a2, c2)" by (cases y)
    from nx Cons y have n: "nextIt_rr ?s' = Some a2" by (simp add: list_begin_def)
    from m(1) Cons y have l: "list_rr ?s' = B @ (a2, c2) # R2" by simp
    from d sh(1) Cons y have "a2 \<notin> fst ` set B" by auto
    from view_shape[OF l n this] Cons y show ?thesis by simp
  qed
  have "rr_view_of ?s' =
      \<lparr>seen = (if R = [] then [] else map snd B), todo = (if R = [] then map snd B else map snd R),
       mode = advanceType_rr s, threshold = advanceAfter_rr s, counter = 0\<rparr>"
    by (rule view_eqI) (simp_all add: st view_fields m sh(2))
  then show ?thesis
    by (simp add: spec_erase_def view_shape[OF sh(1-3)])
qed

text \<open>Erasing a node in front of the cursor, and one behind it.\<close>

lemma erase_before_view:
  assumes sh: "list_rr s = B1 @ (b, v) # B2 @ (a, c) # R" "nextIt_rr s = Some a"
    and d: "distinct (map fst (list_rr s))" and dv: "distinct (map snd (list_rr s))"
  shows "spec_erase v (rr_view_of s) = (True, rr_view_of (erase_it (Some b) s))"
proof -
  let ?s' = "erase_it (Some b) s"
  from d sh(1) have nb: "b \<notin> fst ` set B1" and ba: "b \<noteq> a"
    and na: "a \<notin> fst ` set (B1 @ (b, v) # B2)" and na': "a \<notin> fst ` set (B1 @ B2)"
    by auto
  from dv sh(1) have vc: "c \<noteq> v" and v2: "v \<notin> set (map snd B2)"
    by auto
  note m = erase_it_members[OF sh(1) nb]
  have l0: "list_rr s = (B1 @ (b, v) # B2) @ (a, c) # R" by (simp add: sh(1))
  have l': "list_rr ?s' = (B1 @ B2) @ (a, c) # R" by (simp add: m)
  have n': "nextIt_rr ?s' = Some a" using ba by (simp add: m sh(2))
  have "rr_view_of ?s' =
      \<lparr>seen = map snd B1 @ map snd B2, todo = c # map snd R,
       mode = advanceType_rr s, threshold = advanceAfter_rr s, counter = current_rr s\<rparr>"
    using view_shape[OF l' n' na'] ba by (simp add: m sh(2))
  moreover have "rr_view_of s =
      \<lparr>seen = map snd B1 @ v # map snd B2, todo = c # map snd R,
       mode = advanceType_rr s, threshold = advanceAfter_rr s, counter = current_rr s\<rparr>"
    using view_shape[OF l0 sh(2) na] by simp
  ultimately show ?thesis
    using vc v2 by (simp add: spec_erase_def remove1_append)
qed

lemma erase_after_view:
  assumes sh: "list_rr s = B @ (a, c) # R1 @ (b, v) # R2" "nextIt_rr s = Some a"
    and d: "distinct (map fst (list_rr s))" and dv: "distinct (map snd (list_rr s))"
  shows "spec_erase v (rr_view_of s) = (True, rr_view_of (erase_it (Some b) s))"
proof -
  let ?s' = "erase_it (Some b) s"
  from d sh(1) have nb: "b \<notin> fst ` set (B @ (a, c) # R1)" and ba: "b \<noteq> a"
    and na: "a \<notin> fst ` set B"
    by auto
  from dv sh(1) have vc: "c \<noteq> v" and v1: "v \<notin> set (map snd R1)" and vb: "v \<notin> set (map snd B)"
    by auto
  have l0: "list_rr s = (B @ (a, c) # R1) @ (b, v) # R2" by (simp add: sh(1))
  note m = erase_it_members[OF l0 nb]
  have l': "list_rr ?s' = B @ (a, c) # (R1 @ R2)" by (simp add: m)
  have n': "nextIt_rr ?s' = Some a" using ba by (simp add: m sh(2))
  have "rr_view_of ?s' =
      \<lparr>seen = map snd B, todo = c # map snd R1 @ map snd R2,
       mode = advanceType_rr s, threshold = advanceAfter_rr s, counter = current_rr s\<rparr>"
    using view_shape[OF l' n' na] ba by (simp add: m sh(2))
  moreover have "rr_view_of s =
      \<lparr>seen = map snd B, todo = c # map snd R1 @ v # map snd R2,
       mode = advanceType_rr s, threshold = advanceAfter_rr s, counter = current_rr s\<rparr>"
    using view_shape[OF sh(1) sh(2) na] by simp
  ultimately show ?thesis
    using vc v1 vb by (simp add: spec_erase_def remove1_append)
qed

lemma node_split:
  assumes "distinct (map fst l)" and "(b, v) \<in> set l"
  obtains X Y where "l = X @ (b, v) # Y" and "b \<notin> fst ` set X" and "b \<notin> fst ` set Y"
proof -
  from assms(2) obtain X Y where l: "l = X @ (b, v) # Y" by (meson split_list)
  with assms(1) have "b \<notin> fst ` set X" "b \<notin> fst ` set Y" by auto
  with l that show ?thesis by blast
qed

lemma pair_in_fst: "(a, v) \<in> set X \<Longrightarrow> a \<in> fst ` set X"
  by force

lemma pair_in_snd: "(a, v) \<in> set X \<Longrightarrow> v \<in> snd ` set X"
  by force

lemma begin_in_nodes:
  "l \<noteq> [] \<Longrightarrow> list_begin l \<in> Some ` fst ` set l"
  by (cases l) (auto simp: list_begin_def)

lemma begin_None: "list_begin l = None \<longleftrightarrow> l = []"
  by (cases l) (auto simp: list_begin_def)

lemma erase_it_inv:
  assumes inv: "rr_inv s" and mem: "(b, v) \<in> set (list_rr s)"
  shows "rr_inv (erase_it (Some b) (s\<lparr>indexMap_rr := (indexMap_rr s)(v := None)\<rparr>))"
proof -
  let ?s0 = "s\<lparr>indexMap_rr := (indexMap_rr s)(v := None)\<rparr>"
  let ?s' = "erase_it (Some b) ?s0"
  from inv have d: "distinct (map fst (list_rr s))" and dv: "distinct (map snd (list_rr s))"
    and cur: "nextIt_rr s = None \<and> list_rr s = [] \<or> nextIt_rr s \<in> Some ` fst ` set (list_rr s)"
    and fr: "\<forall>x \<in> set (list_rr s). fst x < fresh_rr s"
    and ix: "if useIndexMap_rr s
       then (\<forall>v it. indexMap_rr s v = Some it \<longleftrightarrow>
                      (\<exists>a. it = Some a \<and> (a, v) \<in> set (list_rr s)))
       else indexMap_rr s = Map.empty"
    by (simp_all add: rr_inv_def)
  from node_split[OF d mem] obtain X Y where
    l: "list_rr s = X @ (b, v) # Y" and nX: "b \<notin> fst ` set X" and nY: "b \<notin> fst ` set Y"
    by blast
  have l0: "list_rr ?s0 = X @ (b, v) # Y" by (simp add: l)
  note m = erase_it_members[OF l0 nX]
  from d l have d': "distinct (map fst (X @ Y))" by simp
  from dv l have dv': "distinct (map snd (X @ Y))" by simp
  from dv l have vX: "v \<notin> snd ` set X" and vY: "v \<notin> snd ` set Y" by auto
  have c': "nextIt_rr ?s' = None \<and> X @ Y = [] \<or> nextIt_rr ?s' \<in> Some ` fst ` set (X @ Y)"
  proof (cases "Some b = nextIt_rr s")
    case True
    show ?thesis
    proof (cases "Y = []")
      case Y: True
      show ?thesis
      proof (cases "X = []")
        case True
        with Y m(2) \<open>Some b = nextIt_rr s\<close> show ?thesis by (simp add: list_begin_def)
      next
        case False
        with Y m(2) \<open>Some b = nextIt_rr s\<close> begin_in_nodes[of X] show ?thesis
          by (simp add: begin_None)
      qed
    next
      case False
      with m(2) True begin_in_nodes[of Y] show ?thesis
        by (auto simp: begin_None)
    qed
  next
    case False
    with cur l have "nextIt_rr s \<in> Some ` fst ` set (X @ Y)" by auto
    with False m(2) show ?thesis by simp
  qed
  from fr l have f': "\<forall>x \<in> set (X @ Y). fst x < fresh_rr ?s'" by (simp add: m)
  have i': "if useIndexMap_rr ?s'
       then (\<forall>w it. indexMap_rr ?s' w = Some it \<longleftrightarrow>
                      (\<exists>a. it = Some a \<and> (a, w) \<in> set (X @ Y)))
       else indexMap_rr ?s' = Map.empty"
  proof (cases "useIndexMap_rr s \<and> \<not> length (X @ Y) < kDestroyIndexThreshold")
    case True
    with ix have I: "\<And>w it. indexMap_rr s w = Some it \<longleftrightarrow>
                      (\<exists>a. it = Some a \<and> (a, w) \<in> set (list_rr s))"
      by simp
    have "indexMap_rr ?s' w = Some it \<longleftrightarrow> (\<exists>a. it = Some a \<and> (a, w) \<in> set (X @ Y))" for w it
    proof (cases "w = v")
      case w: True
      with True vX vY show ?thesis by (auto simp: m dest: pair_in_snd)
    next
      case False
      with True I[of w it] l show ?thesis by (auto simp: m)
    qed
    with True show ?thesis by (simp add: m)
  next
    case False
    with ix show ?thesis by (auto simp: m)
  qed
  from d' dv' c' f' i' show ?thesis
    by (simp add: rr_inv_def m(1))
qed

lemma erase_cursor_again:
  "(erase_it (nextIt_rr s) s)\<lparr>current_rr := 0\<rparr> = erase_it (nextIt_rr s) s"
  if "nextIt_rr s \<noteq> None"
  using that by (auto simp: erase_it_def Let_def)

lemma erase_present:
  assumes inv: "rr_inv s" and mem: "(b, v) \<in> set (list_rr s)"
  shows "RoundRobin_erase v s =
           (True, erase_it (Some b) (s\<lparr>indexMap_rr := (indexMap_rr s)(v := None)\<rparr>))"
proof (cases "useIndexMap_rr s")
  case True
  with inv mem have "indexMap_rr s v = Some (Some b)" by (simp add: rr_inv_def)
  with True mem show ?thesis by (auto simp: RoundRobin_erase_def)
next
  case False
  with inv have e: "indexMap_rr s = Map.empty" by (simp add: rr_inv_def)
  then have s0: "s\<lparr>indexMap_rr := (indexMap_rr s)(w := None)\<rparr> = s" for w by simp
  from inv have d: "distinct (map fst (list_rr s))" and dv: "distinct (map snd (list_rr s))"
    by (simp_all add: rr_inv_def)
  from mem have ne: "list_rr s \<noteq> []" by auto
  from inv_shape[OF inv ne] obtain B a c R where
    sh: "list_rr s = B @ (a, c) # R" "nextIt_rr s = Some a" "a \<notin> fst ` set B" "a \<notin> fst ` set R"
    by blast
  note deref = deref_shape[OF sh(1-3)]
  have nb: "nodes_before (nextIt_rr s) (list_rr s) = B"
    by (simp add: sh(1,2) before_at[OF sh(3)])
  have na: "nodes_after (nextIt_rr s) (list_rr s) = R"
    by (simp add: sh(1,2) after_at[OF sh(3)])
  show ?thesis
  proof (cases "b = a")
    case True
    with mem sh d have "v = c" by (auto dest: pair_in_fst)
    with True False ne deref erase_cursor_again[of s] sh(2) show ?thesis
      by (simp add: RoundRobin_erase_def s0)
  next
    case ba: False
    from mem sh(1) dv ba have cv: "c \<noteq> v" by (auto simp: image_iff)
    from ba mem sh(1) have "(b, v) \<in> set B \<or> (b, v) \<in> set R" by auto
    then show ?thesis
    proof
      assume "(b, v) \<in> set B"
      then obtain B1 B2 where B: "B = B1 @ (b, v) # B2" by (meson split_list)
      with dv sh(1) have "\<forall>x \<in> set (rev B2). \<not> snd x = v" by auto
      then have "find (\<lambda>x. snd x = v) (rev B2 @ (b, v) # rev B1) = Some (b, v)"
        by (intro find_hit) simp_all
      then have "find (\<lambda>x. snd x = v) (rev (nodes_before (nextIt_rr s) (list_rr s))) = Some (b, v)"
        by (simp add: nb B)
      with False ne deref cv show ?thesis
        by (simp add: RoundRobin_erase_def s0)
    next
      assume "(b, v) \<in> set R"
      then obtain R1 R2 where R: "R = R1 @ (b, v) # R2" by (meson split_list)
      with dv sh(1) have "\<forall>x \<in> set R1. \<not> snd x = v" "\<forall>x \<in> set (rev B). \<not> snd x = v" by auto
      then have "find (\<lambda>x. snd x = v) (R1 @ (b, v) # R2) = Some (b, v)"
        and "find (\<lambda>x. snd x = v) (rev B) = None"
        by (simp_all add: find_hit find_miss)
      then have "find (\<lambda>x. snd x = v) (nodes_after (nextIt_rr s) (list_rr s)) = Some (b, v)"
        and "find (\<lambda>x. snd x = v) (rev (nodes_before (nextIt_rr s) (list_rr s))) = None"
        by (simp_all add: nb na R)
      with False ne deref cv show ?thesis
        by (simp add: RoundRobin_erase_def s0)
    qed
  qed
qed

lemma erase_absent:
  assumes inv: "rr_inv s" and nomem: "v \<notin> snd ` set (list_rr s)"
  shows "RoundRobin_erase v s = (False, s)"
proof (cases "list_rr s = []")
  case True
  then show ?thesis by (simp add: RoundRobin_erase_def)
next
  case ne: False
  show ?thesis
  proof (cases "useIndexMap_rr s")
    case True
    with inv nomem have "indexMap_rr s v = None"
      by (cases "indexMap_rr s v") (auto simp: rr_inv_def image_iff)
    with True ne show ?thesis by (simp add: RoundRobin_erase_def)
  next
    case False
    from inv_shape[OF inv ne] obtain B a c R where
      sh: "list_rr s = B @ (a, c) # R" "nextIt_rr s = Some a" "a \<notin> fst ` set B" "a \<notin> fst ` set R"
      by blast
    note deref = deref_shape[OF sh(1-3)]
    from nomem sh(1) have cv: "c \<noteq> v" and "\<forall>x \<in> set (rev B). \<not> snd x = v"
      and "\<forall>x \<in> set R. \<not> snd x = v"
      by (auto simp: image_iff)
    then have "find (\<lambda>x. snd x = v) (rev B) = None" "find (\<lambda>x. snd x = v) R = None"
      by (simp_all add: find_miss)
    then have "find (\<lambda>x. snd x = v) (nodes_after (nextIt_rr s) (list_rr s)) = None"
      and "find (\<lambda>x. snd x = v) (rev (nodes_before (nextIt_rr s) (list_rr s))) = None"
      by (simp_all add: sh(1,2) before_at[OF sh(3)] after_at[OF sh(3)])
    with False ne deref cv show ?thesis
      by (simp add: RoundRobin_erase_def)
  qed
qed

lemma spec_erase_absent:
  assumes inv: "rr_inv s" and nomem: "v \<notin> snd ` set (list_rr s)"
  shows "spec_erase v (rr_view_of s) = (False, rr_view_of s)"
proof (cases "list_rr s = []")
  case True
  then show ?thesis by (simp add: spec_erase_def view_empty)
next
  case ne: False
  from inv_shape[OF inv ne] obtain B a c R where
    sh: "list_rr s = B @ (a, c) # R" "nextIt_rr s = Some a" "a \<notin> fst ` set B" "a \<notin> fst ` set R"
    by blast
  from nomem sh(1) have "c \<noteq> v" "v \<notin> set (map snd B)" "v \<notin> set (map snd R)"
    by (auto simp: image_iff)
  then show ?thesis by (simp add: spec_erase_def view_shape[OF sh(1-3)])
qed

lemma spec_erase_present:
  assumes inv: "rr_inv s" and mem: "(b, v) \<in> set (list_rr s)"
  shows "spec_erase v (rr_view_of s) =
           (True, rr_view_of (erase_it (Some b) (s\<lparr>indexMap_rr := (indexMap_rr s)(v := None)\<rparr>)))"
proof -
  let ?s0 = "s\<lparr>indexMap_rr := (indexMap_rr s)(v := None)\<rparr>"
  from inv have d: "distinct (map fst (list_rr ?s0))" and dv: "distinct (map snd (list_rr ?s0))"
    by (simp_all add: rr_inv_def)
  from mem have ne: "list_rr s \<noteq> []" by auto
  from inv_shape[OF inv ne] obtain B a c R where
    sh: "list_rr s = B @ (a, c) # R" "nextIt_rr s = Some a" "a \<notin> fst ` set B" "a \<notin> fst ` set R"
    by blast
  have v0: "rr_view_of ?s0 = rr_view_of s" by (rule view_index_irrelevant)
  have n0: "nextIt_rr ?s0 = Some a" by (simp add: sh(2))
  show ?thesis
  proof (cases "b = a")
    case True
    with mem sh have vc: "v = c" by (auto dest: pair_in_fst)
    have l0: "list_rr ?s0 = B @ (a, c) # R" by (simp add: sh(1))
    from erase_cursor_view[OF l0 n0 sh(3) d] True vc v0 show ?thesis by simp
  next
    case ba: False
    with mem sh(1) have "(b, v) \<in> set B \<or> (b, v) \<in> set R" by auto
    then show ?thesis
    proof
      assume "(b, v) \<in> set B"
      then obtain B1 B2 where B: "B = B1 @ (b, v) # B2" by (meson split_list)
      then have l0: "list_rr ?s0 = B1 @ (b, v) # B2 @ (a, c) # R" by (simp add: sh(1))
      from erase_before_view[OF l0 n0 d dv] v0 show ?thesis by simp
    next
      assume "(b, v) \<in> set R"
      then obtain R1 R2 where R: "R = R1 @ (b, v) # R2" by (meson split_list)
      then have l0: "list_rr ?s0 = B @ (a, c) # R1 @ (b, v) # R2" by (simp add: sh(1))
      from erase_after_view[OF l0 n0 d dv] v0 show ?thesis by simp
    qed
  qed
qed

lemma sim_erase:
  assumes inv: "rr_inv s"
  shows "spec_erase v (rr_view_of s) =
           (fst (RoundRobin_erase v s), rr_view_of (snd (RoundRobin_erase v s))) \<and>
         rr_inv (snd (RoundRobin_erase v s)) \<and>
         (fst (RoundRobin_erase v s) \<longleftrightarrow> v \<in> snd ` set (list_rr s)) \<and>
         (\<not> fst (RoundRobin_erase v s) \<longrightarrow> snd (RoundRobin_erase v s) = s)"
proof (cases "v \<in> snd ` set (list_rr s)")
  case True
  then obtain b where mem: "(b, v) \<in> set (list_rr s)" by auto
  from erase_present[OF inv mem] spec_erase_present[OF inv mem] erase_it_inv[OF inv mem] True
  show ?thesis by simp
next
  case False
  from erase_absent[OF inv False] spec_erase_absent[OF inv False] inv False
  show ?thesis by simp
qed

subsection \<open>Inserting, and whole traces\<close>

lemma foldl_index:
  assumes "distinct (map snd l)"
  shows "foldl (\<lambda>m x. m(snd x \<mapsto> Some (fst x))) Map.empty l v = Some it \<longleftrightarrow>
           (\<exists>a. it = Some a \<and> (a, v) \<in> set l)"
  using assms
proof (induction l rule: rev_induct)
  case Nil
  then show ?case by simp
next
  case (snoc x xs)
  obtain b w where x: "x = (b, w)" by (cases x)
  from snoc.prems x have nw: "w \<notin> snd ` set xs" and d: "distinct (map snd xs)" by auto
  show ?case
  proof (cases "v = w")
    case True
    with nw have "\<And>a. (a, v) \<notin> set xs" by force
    with True x show ?thesis by auto
  next
    case False
    with snoc.IH[OF d] x show ?thesis by auto
  qed
qed

lemma inv_build:
  assumes inv: "rr_inv s" and off: "\<not> useIndexMap_rr s"
  shows "rr_inv (buildIndex (s\<lparr>useIndexMap_rr := True\<rparr>))"
proof -
  from inv off have e: "indexMap_rr s = Map.empty" and dv: "distinct (map snd (list_rr s))"
    by (simp_all add: rr_inv_def)
  have ix: "\<forall>v it. foldl (\<lambda>m x. m(snd x \<mapsto> Some (fst x))) Map.empty (list_rr s) v = Some it \<longleftrightarrow>
              (\<exists>a. it = Some a \<and> (a, v) \<in> set (list_rr s))"
    using foldl_index[OF dv] by blast
  from inv have rest: "distinct (map fst (list_rr s))"
    "nextIt_rr s = None \<and> list_rr s = [] \<or> nextIt_rr s \<in> Some ` fst ` set (list_rr s)"
    "\<forall>x \<in> set (list_rr s). fst x < fresh_rr s"
    by (simp_all add: rr_inv_def)
  show ?thesis
    unfolding rr_inv_def buildIndex_def using rest dv ix by (simp add: e)
qed

lemma view_build: "rr_view_of (buildIndex (s\<lparr>useIndexMap_rr := True\<rparr>)) = rr_view_of s"
  by (simp add: buildIndex_def rr_view_of_def)

lemma list_build: "list_rr (buildIndex (s\<lparr>useIndexMap_rr := True\<rparr>)) = list_rr s"
  "useIndexMap_rr (buildIndex (s\<lparr>useIndexMap_rr := True\<rparr>))"
  by (simp_all add: buildIndex_def)

lemma insert_build:
  assumes inv: "rr_inv s" and nomem: "v \<notin> snd ` set (list_rr s)"
    and off: "\<not> useIndexMap_rr s" and big: "kBuildIndexThreshold \<le> length (list_rr s)"
  shows "RoundRobin_insert v s = RoundRobin_insert v (buildIndex (s\<lparr>useIndexMap_rr := True\<rparr>))"
proof -
  let ?t = "buildIndex (s\<lparr>useIndexMap_rr := True\<rparr>)"
  have e1: "RoundRobin_erase v s = (False, s)" by (rule erase_absent[OF inv nomem])
  from nomem have "v \<notin> snd ` set (list_rr ?t)" by (simp add: list_build)
  from erase_absent[OF inv_build[OF inv off] this]
  have e2: "RoundRobin_erase v ?t = (False, ?t)" .
  show ?thesis
    unfolding RoundRobin_insert_def e1 e2 using off big by (simp add: list_build)
qed

lemma insert_unfold:
  assumes "RoundRobin_erase v s = (False, s)"
    and "useIndexMap_rr s \<or> length (list_rr s) < kBuildIndexThreshold"
  shows "RoundRobin_insert v s =
    Inr (let s2 = s\<lparr>list_rr := list_insert (nextIt_rr s) (fresh_rr s, v) (list_rr s),
                      fresh_rr := Suc (fresh_rr s)\<rparr>;
             s3 = (if length (list_rr s2) = 1
                   then s2\<lparr>nextIt_rr := list_begin (list_rr s2)\<rparr> else s2)
         in if useIndexMap_rr s3
            then s3\<lparr>indexMap_rr := (indexMap_rr s3)(v \<mapsto> Some (fresh_rr s))\<rparr>
            else s3)"
proof (cases "useIndexMap_rr s")
  case True
  then show ?thesis unfolding RoundRobin_insert_def assms(1) by (simp add: Let_def)
next
  case False
  with assms(2) have "\<not> kBuildIndexThreshold \<le> length (list_rr s)" by simp
  then show ?thesis unfolding RoundRobin_insert_def assms(1) by (simp add: Let_def)
qed

lemma insert_nobuild:
  assumes inv: "rr_inv s" and nomem: "v \<notin> snd ` set (list_rr s)"
    and nob: "useIndexMap_rr s \<or> length (list_rr s) < kBuildIndexThreshold"
  shows "\<exists>s'. RoundRobin_insert v s = Inr s' \<and> rr_inv s' \<and>
              spec_insert v (rr_view_of s) = Inr (rr_view_of s') \<and>
              useIndexMap_rr s' = useIndexMap_rr s"
proof -
  have e1: "RoundRobin_erase v s = (False, s)" by (rule erase_absent[OF inv nomem])
  from nob have nob': "\<not> (\<not> useIndexMap_rr s \<and> kBuildIndexThreshold \<le> length (list_rr s))"
    by auto
  then have cond: "(\<not> useIndexMap_rr s \<and> kBuildIndexThreshold \<le> length (list_rr s)) = False"
    by simp
  from inv have d: "distinct (map fst (list_rr s))" and dv: "distinct (map snd (list_rr s))"
    and fr: "\<forall>x \<in> set (list_rr s). fst x < fresh_rr s"
    and ix: "if useIndexMap_rr s
       then (\<forall>v it. indexMap_rr s v = Some it \<longleftrightarrow>
                      (\<exists>a. it = Some a \<and> (a, v) \<in> set (list_rr s)))
       else indexMap_rr s = Map.empty"
    by (simp_all add: rr_inv_def)
  from fr have frn: "fresh_rr s \<notin> fst ` set (list_rr s)" by auto
  have vals: "seen (rr_view_of s) @ todo (rr_view_of s) = map snd (list_rr s)"
    by (rule view_values)
  then have "set (seen (rr_view_of s)) \<union> set (todo (rr_view_of s)) = snd ` set (list_rr s)"
    by (metis set_append set_map)
  with nomem have nv: "v \<notin> set (seen (rr_view_of s))" "v \<notin> set (todo (rr_view_of s))"
    by auto
  show ?thesis
  proof (cases "list_rr s = []")
    case True
    with inv have nx: "nextIt_rr s = None" by (rule inv_empty)
    let ?s' = "(if useIndexMap_rr s
                then s\<lparr>list_rr := [(fresh_rr s, v)], fresh_rr := Suc (fresh_rr s),
                       nextIt_rr := Some (fresh_rr s),
                       indexMap_rr := (indexMap_rr s)(v \<mapsto> Some (fresh_rr s))\<rparr>
                else s\<lparr>list_rr := [(fresh_rr s, v)], fresh_rr := Suc (fresh_rr s),
                       nextIt_rr := Some (fresh_rr s)\<rparr>)"
    have r: "RoundRobin_insert v s = Inr ?s'"
      unfolding insert_unfold[OF e1 nob] using True nx
      by (simp add: Let_def list_begin_def)
    have i: "rr_inv ?s'"
      using ix True by (auto simp: rr_inv_def)
    have l': "list_rr ?s' = [] @ (fresh_rr s, v) # []" "nextIt_rr ?s' = Some (fresh_rr s)"
      "fresh_rr s \<notin> fst ` set []"
      by simp_all
    have v': "rr_view_of ?s' = \<lparr>seen = [], todo = [v], mode = advanceType_rr s,
                threshold = advanceAfter_rr s, counter = current_rr s\<rparr>"
      using view_shape[OF l'] by simp
    have sp: "spec_insert v (rr_view_of s) = Inr (rr_view_of ?s')"
      unfolding v' by (simp add: spec_insert_def view_empty[OF True])
    have u: "useIndexMap_rr ?s' = useIndexMap_rr s" by simp
    from r i sp u show ?thesis by blast
  next
    case ne: False
    from inv_shape[OF inv ne] obtain B a c R where
      sh: "list_rr s = B @ (a, c) # R" "nextIt_rr s = Some a" "a \<notin> fst ` set B" "a \<notin> fst ` set R"
      by blast
    let ?l = "B @ (fresh_rr s, v) # (a, c) # R"
    have li: "list_insert (nextIt_rr s) (fresh_rr s, v) (list_rr s) = ?l"
      unfolding sh(1,2) by (rule list_insert_Some[OF sh(3)])
    let ?s' = "(if useIndexMap_rr s
                then s\<lparr>list_rr := ?l, fresh_rr := Suc (fresh_rr s),
                       indexMap_rr := (indexMap_rr s)(v \<mapsto> Some (fresh_rr s))\<rparr>
                else s\<lparr>list_rr := ?l, fresh_rr := Suc (fresh_rr s)\<rparr>)"
    have r: "RoundRobin_insert v s = Inr ?s'"
      unfolding insert_unfold[OF e1 nob] by (simp add: Let_def li)
    from frn sh(1) have fa: "fresh_rr s \<noteq> a" "fresh_rr s \<notin> fst ` set B" "fresh_rr s \<notin> fst ` set R"
      by auto
    from nomem sh(1) have va: "v \<noteq> c" "v \<notin> snd ` set B" "v \<notin> snd ` set R"
      by auto
    have setl: "set ?l = insert (fresh_rr s, v) (set (list_rr s))"
      by (auto simp: sh(1))
    have d': "distinct (map fst ?l)" using d fa by (auto simp: sh(1))
    have dv': "distinct (map snd ?l)" using dv va by (auto simp: sh(1))
    have cur': "Some a \<in> Some ` fst ` set ?l" by force
    have fr': "\<forall>x \<in> set ?l. fst x < Suc (fresh_rr s)"
      unfolding setl using fr by auto
    have nov: "\<And>b. (b, v) \<notin> set (list_rr s)" using nomem by force
    have frp: "\<And>w. (fresh_rr s, w) \<notin> set (list_rr s)" using frn by force
    have ix': "useIndexMap_rr s \<Longrightarrow>
        (\<forall>w it. ((indexMap_rr s)(v \<mapsto> Some (fresh_rr s))) w = Some it \<longleftrightarrow>
                      (\<exists>b. it = Some b \<and> (b, w) \<in> set ?l))"
      unfolding setl using ix nov frp by auto
    have i: "rr_inv ?s'"
      unfolding rr_inv_def using d' dv' cur' fr' ix' ix sh(2) by simp
    have na': "a \<notin> fst ` set (B @ [(fresh_rr s, v)])" using sh(3) fa by auto
    have l': "list_rr ?s' = (B @ [(fresh_rr s, v)]) @ (a, c) # R" "nextIt_rr ?s' = Some a"
      by (simp_all add: sh(2))
    have v': "rr_view_of ?s' = \<lparr>seen = map snd B @ [v], todo = c # map snd R,
                mode = advanceType_rr s, threshold = advanceAfter_rr s, counter = current_rr s\<rparr>"
      using view_shape[OF l' na'] by simp
    have v0: "rr_view_of s = \<lparr>seen = map snd B, todo = c # map snd R,
                mode = advanceType_rr s, threshold = advanceAfter_rr s, counter = current_rr s\<rparr>"
      by (rule view_shape[OF sh(1-3)])
    have sp: "spec_insert v (rr_view_of s) = Inr (rr_view_of ?s')"
      using nv unfolding v' by (simp add: spec_insert_def v0)
    have u: "useIndexMap_rr ?s' = useIndexMap_rr s" by simp
    from r i sp u show ?thesis by blast
  qed
qed

lemma insert_absent:
  assumes inv: "rr_inv s" and nomem: "v \<notin> snd ` set (list_rr s)"
  shows "\<exists>s'. RoundRobin_insert v s = Inr s' \<and> rr_inv s' \<and>
              spec_insert v (rr_view_of s) = Inr (rr_view_of s') \<and>
              useIndexMap_rr s' = (useIndexMap_rr s \<or> kBuildIndexThreshold \<le> length (list_rr s))"
proof (cases "useIndexMap_rr s \<or> length (list_rr s) < kBuildIndexThreshold")
  case True
  from insert_nobuild[OF inv nomem True] True show ?thesis by auto
next
  case False
  then have off: "\<not> useIndexMap_rr s" and big: "kBuildIndexThreshold \<le> length (list_rr s)"
    by auto
  let ?t = "buildIndex (s\<lparr>useIndexMap_rr := True\<rparr>)"
  from nomem have nm: "v \<notin> snd ` set (list_rr ?t)" by (simp add: list_build)
  have "useIndexMap_rr ?t \<or> length (list_rr ?t) < kBuildIndexThreshold"
    by (simp add: list_build)
  from insert_nobuild[OF inv_build[OF inv off] nm this] big
  show ?thesis
    unfolding insert_build[OF inv nomem off big] view_build by (simp add: list_build)
qed

lemma insert_present:
  assumes inv: "rr_inv s" and mem: "v \<in> snd ` set (list_rr s)"
  shows "RoundRobin_insert v s = Inl DuplicateValue \<and>
         spec_insert v (rr_view_of s) = Inl DuplicateValue"
proof -
  from sim_erase[OF inv, of v] mem have "fst (RoundRobin_erase v s)" by simp
  then have r: "RoundRobin_insert v s = Inl DuplicateValue"
    by (cases "RoundRobin_erase v s") (simp add: RoundRobin_insert_def)
  have "seen (rr_view_of s) @ todo (rr_view_of s) = map snd (list_rr s)"
    by (rule view_values)
  then have "set (seen (rr_view_of s)) \<union> set (todo (rr_view_of s)) = snd ` set (list_rr s)"
    by (metis set_append set_map)
  with mem have "v \<in> set (seen (rr_view_of s)) \<or> v \<in> set (todo (rr_view_of s))" by auto
  then have "spec_insert v (rr_view_of s) = Inl DuplicateValue"
    by (auto simp: spec_insert_def)
  with r show ?thesis by simp
qed

lemma sim_insert:
  assumes inv: "rr_inv s"
  shows "(case RoundRobin_insert v s of
            Inl e \<Rightarrow> spec_insert v (rr_view_of s) = Inl e
          | Inr s' \<Rightarrow> spec_insert v (rr_view_of s) = Inr (rr_view_of s') \<and> rr_inv s')"
proof (cases "v \<in> snd ` set (list_rr s)")
  case True
  from insert_present[OF inv True] show ?thesis by simp
next
  case False
  from insert_absent[OF inv False] show ?thesis by auto
qed

lemma sim_step:
  assumes inv: "rr_inv s"
  shows "(case rr_step c s of
            Inl e \<Rightarrow> spec_step c (rr_view_of s) = Inl e
          | Inr (out, s') \<Rightarrow> spec_step c (rr_view_of s) = Inr (out, rr_view_of s') \<and> rr_inv s')"
proof (cases c)
  case (Insert v)
  from sim_insert[OF inv, of v] show ?thesis
    by (simp add: Insert rr_step_def spec_step_def split: sum.splits)
next
  case (Erase v)
  obtain b s' where e: "RoundRobin_erase v s = (b, s')" by (cases "RoundRobin_erase v s")
  from sim_erase[OF inv, of v] show ?thesis
    by (simp add: Erase rr_step_def spec_step_def e)
next
  case (AdvanceAfterNext n)
  then show ?thesis
    by (simp add: rr_step_def spec_step_def view_advanceAfterNext inv_advanceAfterNext[OF inv])
next
  case (AdvanceAfterBytes n)
  then show ?thesis
    by (simp add: rr_step_def spec_step_def view_advanceAfterBytes inv_advanceAfterBytes[OF inv])
next
  case (GetNext b)
  from sim_getNext[OF inv, of b] show ?thesis
    by (simp add: GetNext rr_step_def spec_step_def split: sum.splits prod.splits)
next
  case PeekNext
  then show ?thesis
    by (simp add: rr_step_def spec_step_def sim_peekNext[OF inv] inv split: sum.splits)
next
  case Clear
  then show ?thesis
    by (simp add: rr_step_def spec_step_def view_clear inv_clear[OF inv])
qed

lemma sim_run:
  "rr_inv s \<Longrightarrow>
   fst (rr_run cs s) = fst (spec_run cs (rr_view_of s)) \<and>
   map_sum id rr_view_of (snd (rr_run cs s)) = snd (spec_run cs (rr_view_of s)) \<and>
   (\<forall>s'. snd (rr_run cs s) = Inr s' \<longrightarrow> rr_inv s')"
proof (induction cs arbitrary: s)
  case Nil
  then show ?case by simp
next
  case (Cons c cs)
  show ?case
  proof (cases "rr_step c s")
    case (Inl e)
    with sim_step[OF Cons.prems, of c] show ?thesis by simp
  next
    case (Inr p)
    obtain out s' where p: "p = (out, s')" by (cases p)
    from sim_step[OF Cons.prems, of c] Inr p
    have sp: "spec_step c (rr_view_of s) = Inr (out, rr_view_of s')" and i: "rr_inv s'"
      by simp_all
    from Cons.IH[OF i] show ?thesis by (simp add: Inr p sp)
  qed
qed

text \<open>A new scheduler is well formed, and so is every scheduler reached from it.\<close>

lemma inv_new: "rr_inv (RoundRobin_new t n)"
  by (simp add: rr_inv_def RoundRobin_new_def)

lemma view_new: "rr_view_of (RoundRobin_new t n) = spec_new t n"
  by (simp add: rr_view_of_def RoundRobin_new_def spec_new_def nodes_before_def)

lemma reachable_inv:
  "snd (rr_run cs (RoundRobin_new t n)) = Inr s \<Longrightarrow> rr_inv s"
  using sim_run[OF inv_new, of cs t n] by simp

lemma reachable_view:
  "fst (rr_run cs (RoundRobin_new t n)) = fst (spec_run cs (spec_new t n)) \<and>
   map_sum id rr_view_of (snd (rr_run cs (RoundRobin_new t n))) = snd (spec_run cs (spec_new t n))"
  using sim_run[OF inv_new, of cs t n] by (simp add: view_new)

text \<open>
  In a build with assertions the index does not show on any trace: an insert of an identifier
  that is present stops at the assertion of \<^verbatim>\<open>insert\<close> in both schedulers.
\<close>

lemma index_independent_DCHECK:
  assumes "rr_inv s1" and "rr_inv s2" and "rr_view_of s1 = rr_view_of s2"
  shows "fst (rr_run cs s1) = fst (rr_run cs s2) \<and>
         map_sum id rr_view_of (snd (rr_run cs s1)) = map_sum id rr_view_of (snd (rr_run cs s2))"
  using sim_run[OF assms(1), of cs] sim_run[OF assms(2), of cs] assms(3) by simp

subsection \<open>When the index is active\<close>

lemma values_of_view:
  "snd ` set (list_rr s) = set (seen (rr_view_of s)) \<union> set (todo (rr_view_of s))"
  "length (list_rr s) = length (seen (rr_view_of s)) + length (todo (rr_view_of s))"
proof -
  have v: "seen (rr_view_of s) @ todo (rr_view_of s) = map snd (list_rr s)"
    by (rule view_values)
  show "snd ` set (list_rr s) = set (seen (rr_view_of s)) \<union> set (todo (rr_view_of s))"
    by (metis v set_append set_map)
  show "length (list_rr s) = length (seen (rr_view_of s)) + length (todo (rr_view_of s))"
    by (metis v length_append length_map)
qed

lemma insert_absent_list:
  assumes inv: "rr_inv s" and nomem: "v \<notin> snd ` set (list_rr s)"
  shows "\<exists>s'. RoundRobin_insert v s = Inr s' \<and> rr_inv s' \<and>
              snd ` set (list_rr s') = insert v (snd ` set (list_rr s)) \<and>
              length (list_rr s') = Suc (length (list_rr s)) \<and>
              useIndexMap_rr s' = (useIndexMap_rr s \<or> kBuildIndexThreshold \<le> length (list_rr s))"
proof -
  from insert_absent[OF inv nomem] obtain s' where
    r: "RoundRobin_insert v s = Inr s'" and i: "rr_inv s'"
    and sp: "spec_insert v (rr_view_of s) = Inr (rr_view_of s')"
    and u: "useIndexMap_rr s' = (useIndexMap_rr s \<or> kBuildIndexThreshold \<le> length (list_rr s))"
    by blast
  from sp have e: "rr_view_of s' =
      (if todo (rr_view_of s) = [] then (rr_view_of s)\<lparr>todo := [v]\<rparr>
       else (rr_view_of s)\<lparr>seen := seen (rr_view_of s) @ [v]\<rparr>)"
    by (auto simp: spec_insert_def split: if_splits)
  have
    "set (seen (rr_view_of s')) \<union> set (todo (rr_view_of s')) =
       insert v (set (seen (rr_view_of s)) \<union> set (todo (rr_view_of s)))"
    "length (seen (rr_view_of s')) + length (todo (rr_view_of s')) =
       Suc (length (seen (rr_view_of s)) + length (todo (rr_view_of s)))"
    unfolding e by auto
  then have "snd ` set (list_rr s') = insert v (snd ` set (list_rr s))"
    "length (list_rr s') = Suc (length (list_rr s))"
    by (simp_all add: values_of_view)
  with r i u show ?thesis by blast
qed

lemma erase_present_list:
  assumes inv: "rr_inv s" and mem: "v \<in> snd ` set (list_rr s)"
  shows "\<exists>s'. RoundRobin_erase v s = (True, s') \<and> rr_inv s' \<and>
              snd ` set (list_rr s') = snd ` set (list_rr s) - {v} \<and>
              Suc (length (list_rr s')) = length (list_rr s) \<and>
              useIndexMap_rr s' = (useIndexMap_rr s \<and> kDestroyIndexThreshold \<le> length (list_rr s'))"
proof -
  from mem obtain b where m: "(b, v) \<in> set (list_rr s)" by auto
  let ?s0 = "s\<lparr>indexMap_rr := (indexMap_rr s)(v := None)\<rparr>"
  let ?s' = "erase_it (Some b) ?s0"
  from inv have d: "distinct (map fst (list_rr s))" and dv: "distinct (map snd (list_rr s))"
    by (simp_all add: rr_inv_def)
  from node_split[OF d m] obtain X Y where
    l: "list_rr s = X @ (b, v) # Y" and nX: "b \<notin> fst ` set X" and nY: "b \<notin> fst ` set Y"
    by blast
  have l0: "list_rr ?s0 = X @ (b, v) # Y" by (simp add: l)
  note em = erase_it_members[OF l0 nX]
  from dv l have vX: "v \<notin> snd ` set X" and vY: "v \<notin> snd ` set Y" by auto
  have 1: "RoundRobin_erase v s = (True, ?s')" by (rule erase_present[OF inv m])
  have 2: "rr_inv ?s'" by (rule erase_it_inv[OF inv m])
  have 3: "snd ` set (list_rr ?s') = snd ` set (list_rr s) - {v}"
    unfolding em(1) l using vX vY by auto
  have 4: "Suc (length (list_rr ?s')) = length (list_rr s)"
    unfolding em(1) l by simp
  have 5: "useIndexMap_rr ?s' = (useIndexMap_rr s \<and> kDestroyIndexThreshold \<le> length (list_rr ?s'))"
    unfolding em(1) em(4) by auto
  from 1 2 3 4 5 show ?thesis by blast
qed

lemma run_inserts:
  assumes "rr_inv s" and "distinct vs" and "set vs \<inter> snd ` set (list_rr s) = {}"
  shows "\<exists>s'. snd (rr_run (map Insert vs) s) = Inr s' \<and> rr_inv s' \<and>
     snd ` set (list_rr s') = snd ` set (list_rr s) \<union> set vs \<and>
     length (list_rr s') = length (list_rr s) + length vs \<and>
     (useIndexMap_rr s' \<longleftrightarrow>
        useIndexMap_rr s \<or> vs \<noteq> [] \<and> kBuildIndexThreshold < length (list_rr s) + length vs)"
  using assms
proof (induction vs arbitrary: s)
  case Nil
  then show ?case by simp
next
  case (Cons v vs)
  from Cons.prems have nomem: "v \<notin> snd ` set (list_rr s)" by auto
  from insert_absent_list[OF Cons.prems(1) nomem] obtain s1 where
    r: "RoundRobin_insert v s = Inr s1" and i: "rr_inv s1"
    and vals: "snd ` set (list_rr s1) = insert v (snd ` set (list_rr s))"
    and len: "length (list_rr s1) = Suc (length (list_rr s))"
    and u: "useIndexMap_rr s1 = (useIndexMap_rr s \<or> kBuildIndexThreshold \<le> length (list_rr s))"
    by blast
  from Cons.prems vals have d: "distinct vs" and dis: "set vs \<inter> snd ` set (list_rr s1) = {}"
    by auto
  from Cons.IH[OF i d dis] obtain s' where
    r': "snd (rr_run (map Insert vs) s1) = Inr s'" and i': "rr_inv s'"
    and vals': "snd ` set (list_rr s') = snd ` set (list_rr s1) \<union> set vs"
    and len': "length (list_rr s') = length (list_rr s1) + length vs"
    and u': "useIndexMap_rr s' \<longleftrightarrow>
        useIndexMap_rr s1 \<or> vs \<noteq> [] \<and> kBuildIndexThreshold < length (list_rr s1) + length vs"
    by blast
  have 1: "snd (rr_run (map Insert (v # vs)) s) = Inr s'"
    by (simp add: rr_step_def r r')
  have 3: "snd ` set (list_rr s') = snd ` set (list_rr s) \<union> set (v # vs)"
    unfolding vals' vals by auto
  have 4: "length (list_rr s') = length (list_rr s) + length (v # vs)"
    unfolding len' len by simp
  have 5: "useIndexMap_rr s' \<longleftrightarrow>
        useIndexMap_rr s \<or> v # vs \<noteq> [] \<and> kBuildIndexThreshold < length (list_rr s) + length (v # vs)"
    unfolding u' u len by auto
  from 1 i' 3 4 5 show ?case by blast
qed

lemma run_erases:
  assumes "rr_inv s" and "distinct vs" and "set vs \<subseteq> snd ` set (list_rr s)"
  shows "\<exists>s'. snd (rr_run (map Erase vs) s) = Inr s' \<and> rr_inv s' \<and>
     snd ` set (list_rr s') = snd ` set (list_rr s) - set vs \<and>
     length (list_rr s') + length vs = length (list_rr s) \<and>
     (useIndexMap_rr s' \<longleftrightarrow>
        useIndexMap_rr s \<and> (vs = [] \<or> kDestroyIndexThreshold \<le> length (list_rr s')))"
  using assms
proof (induction vs arbitrary: s)
  case Nil
  then show ?case by simp
next
  case (Cons v vs)
  from Cons.prems have mem: "v \<in> snd ` set (list_rr s)" by auto
  from erase_present_list[OF Cons.prems(1) mem] obtain s1 where
    r: "RoundRobin_erase v s = (True, s1)" and i: "rr_inv s1"
    and vals: "snd ` set (list_rr s1) = snd ` set (list_rr s) - {v}"
    and len: "Suc (length (list_rr s1)) = length (list_rr s)"
    and u: "useIndexMap_rr s1 = (useIndexMap_rr s \<and> kDestroyIndexThreshold \<le> length (list_rr s1))"
    by blast
  from Cons.prems vals have d: "distinct vs" and sub: "set vs \<subseteq> snd ` set (list_rr s1)"
    by auto
  from Cons.IH[OF i d sub] obtain s' where
    r': "snd (rr_run (map Erase vs) s1) = Inr s'" and i': "rr_inv s'"
    and vals': "snd ` set (list_rr s') = snd ` set (list_rr s1) - set vs"
    and len': "length (list_rr s') + length vs = length (list_rr s1)"
    and u': "useIndexMap_rr s' \<longleftrightarrow>
        useIndexMap_rr s1 \<and> (vs = [] \<or> kDestroyIndexThreshold \<le> length (list_rr s'))"
    by blast
  have 1: "snd (rr_run (map Erase (v # vs)) s) = Inr s'"
    by (simp add: rr_step_def r r')
  have 3: "snd ` set (list_rr s') = snd ` set (list_rr s) - set (v # vs)"
    unfolding vals' vals by auto
  have 4: "length (list_rr s') + length (v # vs) = length (list_rr s)"
    using len' len by simp
  have 5: "useIndexMap_rr s' \<longleftrightarrow>
        useIndexMap_rr s \<and> (v # vs = [] \<or> kDestroyIndexThreshold \<le> length (list_rr s'))"
    unfolding u' u using len' by auto
  from 1 i' 3 4 5 show ?case by blast
qed

lemma snd_run_append:
  "snd (rr_run (cs @ ds) s) =
     (case snd (rr_run cs s) of Inl e \<Rightarrow> Inl e | Inr s' \<Rightarrow> snd (rr_run ds s'))"
  by (induction cs arbitrary: s) (auto split: sum.splits prod.splits)

lemma snd_spec_run_Cons:
  "snd (spec_run (c # cs) a) =
     (case spec_step c a of Inl e \<Rightarrow> Inl e | Inr p \<Rightarrow> snd (spec_run cs (snd p)))"
  by (simp split: sum.splits prod.splits)

lemma fst_spec_run_Cons:
  "fst (spec_run (c # cs) a) =
     (case spec_step c a of Inl e \<Rightarrow> [] | Inr p \<Rightarrow> fst p # fst (spec_run cs (snd p)))"
  by (simp split: sum.splits prod.splits)

lemmas spec_unfold =
  spec_new_def spec_step_def spec_insert_def spec_erase_def spec_getNext_def spec_peekNext_def
  spec_clear_def spec_advanceAfterNext_def spec_advanceAfterBytes_def Let_def

lemma S5_spec_indexed:
  "snd (spec_run (map Insert [1, 2, 3, 4, 5, 6, 7, 8, 9, 10, 11, 12, 13, 14, 15, 16, 17, 18, 19, 20, 21, 22, 23, 24, 25, 26, 27, 28, 29, 30, 31] @ map Erase [17, 18, 19, 20, 21, 22, 23, 24, 25, 26, 27, 28, 29, 30, 31]) (spec_new Nexts 1)) =
   Inr \<lparr>seen = [2, 3, 4, 5, 6, 7, 8, 9, 10, 11, 12, 13, 14, 15, 16], todo = [1], mode = Nexts,
        threshold = 1, counter = 0\<rparr>"
  by (simp add: spec_unfold snd_spec_run_Cons del: spec_run.simps(2))

lemma S5_spec_linear:
  "snd (spec_run (map Insert [1, 2, 3, 4, 5, 6, 7, 8, 9, 10, 11, 12, 13, 14, 15, 16]) (spec_new Nexts 1)) =
   Inr \<lparr>seen = [2, 3, 4, 5, 6, 7, 8, 9, 10, 11, 12, 13, 14, 15, 16], todo = [1], mode = Nexts,
        threshold = 1, counter = 0\<rparr>"
  by (simp add: spec_unfold snd_spec_run_Cons del: spec_run.simps(2))


lemma S5_indexed_facts:
  "rr_inv S5_indexed" "useIndexMap_rr S5_indexed"
  "rr_view_of S5_indexed =
     \<lparr>seen = [2, 3, 4, 5, 6, 7, 8, 9, 10, 11, 12, 13, 14, 15, 16], todo = [1], mode = Nexts,
        threshold = 1, counter = 0\<rparr>"
proof -
  let ?A = "[1, 2, 3, 4, 5, 6, 7, 8, 9, 10, 11, 12, 13, 14, 15, 16, 17, 18, 19, 20, 21, 22, 23, 24, 25, 26, 27, 28, 29, 30, 31] :: Identifier list"
  let ?B = "[17, 18, 19, 20, 21, 22, 23, 24, 25, 26, 27, 28, 29, 30, 31] :: Identifier list"
  let ?new = "RoundRobin_new Nexts 1"
  have dA: "distinct ?A" by simp
  have dB: "distinct ?B" by simp
  have e: "set ?A \<inter> snd ` set (list_rr ?new) = {}" by (simp add: RoundRobin_new_def)
  from run_inserts[OF inv_new dA e] obtain s1 where
    r1: "snd (rr_run (map Insert ?A) ?new) = Inr s1" and i1: "rr_inv s1"
    and vals1: "snd ` set (list_rr s1) = snd ` set (list_rr ?new) \<union> set ?A"
    and len1: "length (list_rr s1) = length (list_rr ?new) + length ?A"
    and u1: "useIndexMap_rr s1 \<longleftrightarrow>
        useIndexMap_rr ?new \<or> ?A \<noteq> [] \<and> kBuildIndexThreshold < length (list_rr ?new) + length ?A"
    by blast
  from len1 have len1': "length (list_rr s1) = 31" by (simp add: RoundRobin_new_def)
  from u1 have u1': "useIndexMap_rr s1" by (simp add: RoundRobin_new_def kBuildIndexThreshold_def)
  have sub: "set ?B \<subseteq> snd ` set (list_rr s1)" unfolding vals1 by simp
  from run_erases[OF i1 dB sub] obtain s2 where
    r2: "snd (rr_run (map Erase ?B) s1) = Inr s2" and i2: "rr_inv s2"
    and len2: "length (list_rr s2) + length ?B = length (list_rr s1)"
    and u2: "useIndexMap_rr s2 \<longleftrightarrow>
        useIndexMap_rr s1 \<and> (?B = [] \<or> kDestroyIndexThreshold \<le> length (list_rr s2))"
    by blast
  from len2 len1' have len: "length (list_rr s2) = 16" by simp
  from u2 u1' len have u: "useIndexMap_rr s2" by (simp add: kDestroyIndexThreshold_def)
  have run: "snd (rr_run (map Insert ?A @ map Erase ?B) ?new) = Inr s2"
    unfolding snd_run_append r1 sum.case r2 by (rule refl)
  have eq: "S5_indexed = s2"
    unfolding S5_indexed_def rr_after_def run sum.case by (rule refl)
  note v = sim_run[OF inv_new[of Nexts 1], of "map Insert ?A @ map Erase ?B",
      THEN conjunct2, THEN conjunct1, unfolded run view_new S5_spec_indexed]
  then have v': "rr_view_of s2 =
     \<lparr>seen = [2, 3, 4, 5, 6, 7, 8, 9, 10, 11, 12, 13, 14, 15, 16], todo = [1], mode = Nexts,
        threshold = 1, counter = 0\<rparr>"
    by simp
  from i2 show "rr_inv S5_indexed" unfolding eq .
  from u show "useIndexMap_rr S5_indexed" unfolding eq .
  from v' show "rr_view_of S5_indexed =
     \<lparr>seen = [2, 3, 4, 5, 6, 7, 8, 9, 10, 11, 12, 13, 14, 15, 16], todo = [1], mode = Nexts,
        threshold = 1, counter = 0\<rparr>"
    unfolding eq .
qed

lemma S5_linear_facts:
  "rr_inv S5_linear" "\<not> useIndexMap_rr S5_linear"
  "rr_view_of S5_linear =
     \<lparr>seen = [2, 3, 4, 5, 6, 7, 8, 9, 10, 11, 12, 13, 14, 15, 16], todo = [1], mode = Nexts,
        threshold = 1, counter = 0\<rparr>"
proof -
  let ?A = "[1, 2, 3, 4, 5, 6, 7, 8, 9, 10, 11, 12, 13, 14, 15, 16] :: Identifier list"
  let ?new = "RoundRobin_new Nexts 1"
  have dA: "distinct ?A" by simp
  have e: "set ?A \<inter> snd ` set (list_rr ?new) = {}" by (simp add: RoundRobin_new_def)
  from run_inserts[OF inv_new dA e] obtain s1 where
    r1: "snd (rr_run (map Insert ?A) ?new) = Inr s1" and i1: "rr_inv s1"
    and u1: "useIndexMap_rr s1 \<longleftrightarrow>
        useIndexMap_rr ?new \<or> ?A \<noteq> [] \<and> kBuildIndexThreshold < length (list_rr ?new) + length ?A"
    by blast
  from u1 have u1': "\<not> useIndexMap_rr s1"
    by (simp add: RoundRobin_new_def kBuildIndexThreshold_def)
  have eq: "S5_linear = s1"
    unfolding S5_linear_def rr_after_def r1 sum.case by (rule refl)
  note v = sim_run[OF inv_new[of Nexts 1], of "map Insert ?A",
      THEN conjunct2, THEN conjunct1, unfolded r1 view_new S5_spec_linear]
  then have v': "rr_view_of s1 =
     \<lparr>seen = [2, 3, 4, 5, 6, 7, 8, 9, 10, 11, 12, 13, 14, 15, 16], todo = [1], mode = Nexts,
        threshold = 1, counter = 0\<rparr>"
    by simp
  from i1 show "rr_inv S5_linear" unfolding eq .
  from u1' show "\<not> useIndexMap_rr S5_linear" unfolding eq .
  from v' show "rr_view_of S5_linear =
     \<lparr>seen = [2, 3, 4, 5, 6, 7, 8, 9, 10, 11, 12, 13, 14, 15, 16], todo = [1], mode = Nexts,
        threshold = 1, counter = 0\<rparr>"
    unfolding eq .
qed

lemma S5_spec_trace:
  "fst (spec_run S5_trace
     \<lparr>seen = [2, 3, 4, 5, 6, 7, 8, 9, 10, 11, 12, 13, 14, 15, 16], todo = [1], mode = Nexts,
        threshold = 1, counter = 0\<rparr>) =
   [Next 1, Erased True, Erased True, Next 2, Done, Erased True, Next 3, Erased True,
    Erased True, Erased True, Erased True, Erased False, Erased True, Erased True, Next 6,
    Next 7, Done, Next 7, Next 8]"
  by (simp add: S5_trace_def spec_unfold fst_spec_run_Cons del: spec_run.simps(2))

subsection \<open>Builds without assertions\<close>

lemma erase_False_same: "RoundRobin_erase v s = (False, s0) \<Longrightarrow> s0 = s"
  by (auto simp: RoundRobin_erase_def split: if_splits option.splits)

lemma insert_via_NDEBUG:
  "RoundRobin_insert v s =
     (if fst (RoundRobin_erase v s) then Inl DuplicateValue
      else Inr (RoundRobin_insert_NDEBUG v (snd (RoundRobin_erase v s))))"
proof -
  obtain b s0 where e: "RoundRobin_erase v s = (b, s0)" by (cases "RoundRobin_erase v s")
  show ?thesis
    by (cases b)
       (simp_all only: RoundRobin_insert_def RoundRobin_insert_NDEBUG_def e prod.case bool.case
          fst_conv snd_conv if_True if_False Let_def)
qed

lemma insert_agrees:
  assumes "RoundRobin_insert v s = Inr s'"
  shows "RoundRobin_insert_NDEBUG v s = s'"
proof -
  obtain b s0 where e: "RoundRobin_erase v s = (b, s0)" by (cases "RoundRobin_erase v s")
  with assms have b: "\<not> b" by (cases b) (simp_all add: insert_via_NDEBUG)
  with e have s0: "s0 = s" by (simp add: erase_False_same)
  from assms b show ?thesis by (simp add: insert_via_NDEBUG e s0)
qed

lemma no_duplicate_inserts_cong:
  "set xs = set ys \<Longrightarrow> no_duplicate_inserts cs xs = no_duplicate_inserts cs ys"
proof (induction cs arbitrary: xs ys)
  case Nil
  then show ?case by simp
next
  case (Cons c cs)
  show ?case
  proof (cases c)
    case (Insert v)
    from Cons.prems have "set (v # xs) = set (v # ys)" by simp
    from Cons.IH[OF this] Cons.prems show ?thesis by (simp add: Insert)
  next
    case (Erase v)
    from Cons.prems have "set (removeAll v xs) = set (removeAll v ys)" by simp
    from Cons.IH[OF this] show ?thesis by (simp add: Erase)
  next
    case (AdvanceAfterNext n)
    with Cons.IH[OF Cons.prems] show ?thesis by simp
  next
    case (AdvanceAfterBytes n)
    with Cons.IH[OF Cons.prems] show ?thesis by simp
  next
    case (GetNext b)
    with Cons.IH[OF Cons.prems] show ?thesis by simp
  next
    case PeekNext
    with Cons.IH[OF Cons.prems] show ?thesis by simp
  next
    case Clear
    then show ?thesis by simp
  qed
qed

lemma getNext_list: "getNext b s = Inr (v, s') \<Longrightarrow> list_rr s' = list_rr s"
  by (auto simp: getNext_def consume_def maybeAdvance_def Let_def
           split: if_splits option.splits sum.splits)

lemma step_agrees:
  assumes inv: "rr_inv s" and nd: "no_duplicate_inserts (c # cs) (map snd (list_rr s))"
  shows "rr_step_NDEBUG c s = rr_step c s \<and>
         (\<forall>out s'. rr_step c s = Inr (out, s') \<longrightarrow>
             no_duplicate_inserts cs (map snd (list_rr s')))"
proof (cases c)
  case (Insert v)
  with nd have nomem: "v \<notin> snd ` set (list_rr s)"
    and rest: "no_duplicate_inserts cs (v # map snd (list_rr s))"
    by simp_all
  from insert_absent_list[OF inv nomem] obtain s1 where
    r: "RoundRobin_insert v s = Inr s1"
    and vals: "snd ` set (list_rr s1) = insert v (snd ` set (list_rr s))"
    by blast
  from vals have "set (map snd (list_rr s1)) = set (v # map snd (list_rr s))" by simp
  from no_duplicate_inserts_cong[OF this] rest
  have "no_duplicate_inserts cs (map snd (list_rr s1))" by simp
  with r insert_agrees[OF r] show ?thesis
    by (simp add: Insert rr_step_NDEBUG_def rr_step_def)
next
  case (Erase v)
  with nd have rest: "no_duplicate_inserts cs (removeAll v (map snd (list_rr s)))" by simp
  obtain b s1 where e: "RoundRobin_erase v s = (b, s1)" by (cases "RoundRobin_erase v s")
  have "set (map snd (list_rr s1)) = set (removeAll v (map snd (list_rr s)))"
  proof (cases "v \<in> snd ` set (list_rr s)")
    case True
    from erase_present_list[OF inv True] e show ?thesis by auto
  next
    case False
    from erase_absent[OF inv False] e have "s1 = s" by simp
    with False show ?thesis by auto
  qed
  from no_duplicate_inserts_cong[OF this] rest
  have "no_duplicate_inserts cs (map snd (list_rr s1))" by simp
  with e show ?thesis by (simp add: Erase rr_step_NDEBUG_def rr_step_def)
next
  case (AdvanceAfterNext n)
  with nd show ?thesis
    by (simp add: rr_step_NDEBUG_def rr_step_def advanceAfterNext_def Let_def)
next
  case (AdvanceAfterBytes n)
  with nd show ?thesis
    by (simp add: rr_step_NDEBUG_def rr_step_def advanceAfterBytes_def Let_def)
next
  case (GetNext b)
  with nd have rest: "no_duplicate_inserts cs (map snd (list_rr s))" by simp
  show ?thesis
  proof (cases "getNext b s")
    case (Inl e)
    then show ?thesis by (simp add: GetNext rr_step_NDEBUG_def rr_step_def)
  next
    case (Inr p)
    obtain v s1 where p: "p = (v, s1)" by (cases p)
    from getNext_list[of b s v s1] Inr p have "list_rr s1 = list_rr s" by simp
    with rest Inr p show ?thesis by (simp add: GetNext rr_step_NDEBUG_def rr_step_def)
  qed
next
  case PeekNext
  with nd show ?thesis
    by (auto simp: rr_step_NDEBUG_def rr_step_def split: sum.splits)
next
  case Clear
  with nd show ?thesis
    by (simp add: rr_step_NDEBUG_def rr_step_def RoundRobin_clear_def Let_def)
qed

lemma run_agrees:
  "rr_inv s \<Longrightarrow> no_duplicate_inserts cs (map snd (list_rr s)) \<Longrightarrow>
   rr_run_NDEBUG cs s = rr_run cs s"
proof (induction cs arbitrary: s)
  case Nil
  then show ?case by simp
next
  case (Cons c cs)
  note st = step_agrees[OF Cons.prems]
  show ?case
  proof (cases "rr_step c s")
    case (Inl e)
    with st show ?thesis by simp
  next
    case (Inr p)
    obtain out s' where p: "p = (out, s')" by (cases p)
    from sim_step[OF Cons.prems(1), of c] Inr p have i: "rr_inv s'" by simp
    from st Inr p have nd: "no_duplicate_inserts cs (map snd (list_rr s'))" by simp
    from Cons.IH[OF i nd] st Inr p show ?thesis by simp
  qed
qed

text \<open>
  C9 (amended): for every trace of insert, erase, advance-mode, getNext, peekNext and clear
  calls that never inserts an identifier that is in the scheduler at that moment, two
  well-formed schedulers that show the same identifiers in the same order, with the same
  cursor, advance mode, threshold and counter, return the same results call by call, stop at
  the same failed check if any, and show the same at the end, whether or not the index is
  active in either of them (and while it is built or dropped along the trace).  This holds in
  a build without assertions and in a build with assertions, which behave alike on such a
  trace.  Every scheduler reached from a new one by such a trace is well formed
  (\<open>reachable_inv\<close>, \<open>reachable_inv_NDEBUG\<close>).
\<close>

theorem index_independent_without_duplicates:
  assumes "rr_inv s1" and "rr_inv s2" and "rr_view_of s1 = rr_view_of s2"
    and "no_duplicate_inserts cs (map snd (list_rr s1))"
  shows "fst (rr_run_NDEBUG cs s1) = fst (rr_run_NDEBUG cs s2) \<and>
         map_sum id rr_view_of (snd (rr_run_NDEBUG cs s1)) =
           map_sum id rr_view_of (snd (rr_run_NDEBUG cs s2)) \<and>
         rr_run cs s1 = rr_run_NDEBUG cs s1 \<and> rr_run cs s2 = rr_run_NDEBUG cs s2"
proof -
  have "map snd (list_rr s1) = map snd (list_rr s2)"
    using view_values[of s1] view_values[of s2] assms(3) by simp
  with assms(4) have nd2: "no_duplicate_inserts cs (map snd (list_rr s2))" by simp
  note a1 = run_agrees[OF assms(1) assms(4)] and a2 = run_agrees[OF assms(2) nd2]
  from sim_run[OF assms(1), of cs] sim_run[OF assms(2), of cs] assms(3)
  show ?thesis unfolding a1 a2 by simp
qed

lemma reachable_inv_NDEBUG:
  assumes "no_duplicate_inserts cs []" and "snd (rr_run_NDEBUG cs (RoundRobin_new t n)) = Inr s"
  shows "rr_inv s"
proof -
  have "no_duplicate_inserts cs (map snd (list_rr (RoundRobin_new t n)))"
    using assms(1) by (simp add: RoundRobin_new_def)
  from run_agrees[OF inv_new this] assms(2) show ?thesis by (simp add: reachable_inv)
qed

text \<open>
  Without assertions, a second copy of the identifier under the cursor shows the index: the
  indexed erase removes the copy stored last, the linear erase the node under the cursor.
\<close>

lemma getNext_returns:
  assumes "list_deref (list_rr s) (nextIt_rr s) = Some c"
  shows "\<exists>s'. getNext b s = Inr (c, s')"
proof -
  from assms obtain a where a: "nextIt_rr s = Some a"
    by (cases "nextIt_rr s") (simp_all add: list_deref_def)
  from assms a have ne: "list_rr s \<noteq> []" by (auto simp: list_deref_def)
  from assms a ne show ?thesis
    by (simp add: getNext_def consume_def maybeAdvance_def Let_def)
qed

lemma cursor_last:
  assumes inv: "rr_inv s" and td: "todo (rr_view_of s) = [c]"
  obtains B a where "list_rr s = B @ [(a, c)]" and "nextIt_rr s = Some a"
    and "a \<notin> fst ` set B" and "seen (rr_view_of s) = map snd B"
proof -
  from td have ne: "list_rr s \<noteq> []" by (auto simp: view_empty)
  from inv_shape[OF inv ne] obtain B a c' R where
    sh: "list_rr s = B @ (a, c') # R" "nextIt_rr s = Some a" "a \<notin> fst ` set B" "a \<notin> fst ` set R"
    by blast
  from td have "c' = c" "R = []" "seen (rr_view_of s) = map snd B"
    by (simp_all add: view_shape[OF sh(1-3)])
  with sh that show ?thesis by simp
qed

lemma duplicate_at_cursor_indexed:
  assumes inv: "rr_inv s" and ix: "useIndexMap_rr s"
    and big: "kDestroyIndexThreshold \<le> length (list_rr s)"
    and td: "todo (rr_view_of s) = [c]"
  shows "fst (rr_run_NDEBUG [Insert c, Erase c, GetNext b] s) = [Done, Erased True, Next c]"
proof -
  from cursor_last[OF inv td] obtain B a where
    sh: "list_rr s = B @ [(a, c)]" "nextIt_rr s = Some a" "a \<notin> fst ` set B"
    and sB: "seen (rr_view_of s) = map snd B"
    by blast
  let ?f = "fresh_rr s"
  from inv have fr: "\<forall>x \<in> set (list_rr s). fst x < ?f" by (simp add: rr_inv_def)
  then have frn: "?f \<notin> fst ` set (list_rr s)" by auto
  from frn sh(1) have fa: "?f \<noteq> a" and fB: "?f \<notin> fst ` set B" by auto
  let ?s1 = "s\<lparr>list_rr := B @ [(?f, c), (a, c)], fresh_rr := Suc ?f,
               indexMap_rr := (indexMap_rr s)(c \<mapsto> Some ?f)\<rparr>"
  have li: "list_insert (nextIt_rr s) (?f, c) (list_rr s) = B @ [(?f, c), (a, c)]"
    unfolding sh(1,2) using list_insert_Some[OF sh(3), of "(?f, c)" c "[]"] by simp
  define s1 where "s1 = RoundRobin_insert_NDEBUG c s"
  have i1: "s1 = s\<lparr>list_rr := B @ [(?f, c), (a, c)], fresh_rr := Suc ?f,
               indexMap_rr := (indexMap_rr s)(c \<mapsto> Some ?f)\<rparr>"
    unfolding s1_def RoundRobin_insert_NDEBUG_def using ix by (simp add: Let_def li)
  have f1: "list_rr s1 = B @ (?f, c) # [(a, c)]" "nextIt_rr s1 = Some a" "useIndexMap_rr s1"
    "indexMap_rr s1 c = Some (Some ?f)"
    by (simp_all add: i1 sh(2) ix)
  define s1' where "s1' = s1\<lparr>indexMap_rr := (indexMap_rr s1)(c := None)\<rparr>"
  have e1: "RoundRobin_erase c s1 = (True, erase_it (Some ?f) s1')"
    using f1 by (simp add: RoundRobin_erase_def s1'_def)
  have l1: "list_rr s1' = B @ (?f, c) # [(a, c)]" by (simp add: s1'_def f1)
  have n1: "nextIt_rr s1' = Some a" by (simp add: s1'_def f1)
  note m = erase_it_members[OF l1 fB]
  define s2 where "s2 = erase_it (Some ?f) s1'"
  have l2: "list_rr s2 = B @ (a, c) # []" unfolding s2_def by (simp add: m(1))
  have n2: "nextIt_rr s2 = Some a" unfolding s2_def using fa by (simp add: m(2) n1)
  from getNext_returns[OF deref_shape[OF l2 n2 sh(3)], of b] obtain s3 where
    g: "getNext b s2 = Inr (c, s3)" by blast
  show ?thesis
    by (simp add: rr_step_NDEBUG_def rr_step_def s1_def[symmetric] e1 s2_def[symmetric] g)
qed

lemma duplicate_at_cursor_linear:
  assumes inv: "rr_inv s" and ix: "\<not> useIndexMap_rr s"
    and small: "length (list_rr s) < kBuildIndexThreshold"
    and td: "todo (rr_view_of s) = [c]" and sn: "seen (rr_view_of s) = x # xs"
  shows "fst (rr_run_NDEBUG [Insert c, Erase c, GetNext b] s) = [Done, Erased True, Next x]"
proof -
  from cursor_last[OF inv td] obtain B a where
    sh: "list_rr s = B @ [(a, c)]" "nextIt_rr s = Some a" "a \<notin> fst ` set B"
    and sB: "seen (rr_view_of s) = map snd B"
    by blast
  from sB sn obtain n B' where B: "B = (n, x) # B'" by (cases B) auto
  let ?f = "fresh_rr s"
  from inv have fr: "\<forall>x \<in> set (list_rr s). fst x < ?f" by (simp add: rr_inv_def)
  then have frn: "?f \<notin> fst ` set (list_rr s)" by auto
  from frn sh(1) have fa: "?f \<noteq> a" by auto
  let ?s1 = "s\<lparr>list_rr := B @ [(?f, c), (a, c)], fresh_rr := Suc ?f\<rparr>"
  have li: "list_insert (nextIt_rr s) (?f, c) (list_rr s) = B @ [(?f, c), (a, c)]"
    unfolding sh(1,2) using list_insert_Some[OF sh(3), of "(?f, c)" c "[]"] by simp
  from small have nb: "\<not> kBuildIndexThreshold \<le> length (list_rr s)" by simp
  have i1: "RoundRobin_insert_NDEBUG c s = ?s1"
    unfolding RoundRobin_insert_NDEBUG_def using ix nb by (simp add: Let_def li)
  have l1: "list_rr ?s1 = (B @ [(?f, c)]) @ (a, c) # []" by simp
  have n1: "nextIt_rr ?s1 = Some a" by (simp add: sh(2))
  have a1: "a \<notin> fst ` set (B @ [(?f, c)])" using sh(3) fa by auto
  note d1 = deref_shape[OF l1 n1 a1]
  have ne1: "list_rr ?s1 \<noteq> []" by simp
  have u1: "\<not> useIndexMap_rr ?s1" using ix by simp
  have e1: "RoundRobin_erase c ?s1 = (True, (erase_it (nextIt_rr ?s1) ?s1)\<lparr>current_rr := 0\<rparr>)"
    unfolding RoundRobin_erase_def using ne1 u1 d1 by (simp only: if_False if_True simp_thms)
  note m = erase_it_members[OF l1 a1]
  let ?s2 = "(erase_it (Some a) ?s1)\<lparr>current_rr := 0\<rparr>"
  have l2': "list_rr ?s2 = (B @ [(?f, c)]) @ []" by (simp add: m(1))
  have l2: "list_rr ?s2 = [] @ (n, x) # (B' @ [(?f, c)])" using l2' by (simp add: B)
  have n2': "nextIt_rr ?s2 = list_begin ((B @ [(?f, c)]) @ [])"
    by (simp add: m(2) sh(2) list_begin_def)
  have n2: "nextIt_rr ?s2 = Some n" using n2' by (simp add: B list_begin_def)
  have a2: "n \<notin> fst ` set []" by simp
  from getNext_returns[OF deref_shape[OF l2 n2 a2], of b] obtain s3 where
    g: "getNext b ?s2 = Inr (x, s3)" by blast
  from e1 have e1': "RoundRobin_erase c ?s1 = (True, ?s2)" by (simp add: sh(2))
  show ?thesis
    by (simp add: rr_step_NDEBUG_def rr_step_def i1 e1' g)
qed

lemma S5_lengths:
  "length (list_rr S5_indexed) = 16" "length (list_rr S5_linear) = 16"
  "map snd (list_rr S5_indexed) = [2, 3, 4, 5, 6, 7, 8, 9, 10, 11, 12, 13, 14, 15, 16, 1]"
  by (simp_all add: values_of_view(2) S5_indexed_facts(3) S5_linear_facts(3)
        flip: view_values)

text \<open>
  C9 (as stated, for every trace): in a build without assertions the two schedulers built
  above, which show the same identifiers 2 to 16 in front of the cursor and 1 under it, differ
  on the trace insert(1), erase(1), getNext().  With the index, erase removes the copy of 1
  inserted last and getNext returns 1; without it, erase removes the 1 under the cursor, the
  cursor wraps to the front and getNext returns 2.
\<close>

theorem duplicate_insert_shows_index:
  "rr_inv S5_indexed \<and> rr_inv S5_linear \<and> rr_view_of S5_indexed = rr_view_of S5_linear \<and>
   useIndexMap_rr S5_indexed \<and> \<not> useIndexMap_rr S5_linear \<and>
   fst (rr_run_NDEBUG [Insert 1, Erase 1, GetNext None] S5_indexed) =
     [Done, Erased True, Next 1] \<and>
   fst (rr_run_NDEBUG [Insert 1, Erase 1, GetNext None] S5_linear) =
     [Done, Erased True, Next 2]"
proof -
  have eq: "rr_view_of S5_indexed = rr_view_of S5_linear"
    unfolding S5_indexed_facts(3) S5_linear_facts(3) by (rule refl)
  have big: "kDestroyIndexThreshold \<le> length (list_rr S5_indexed)"
    by (simp add: S5_lengths kDestroyIndexThreshold_def)
  have small: "length (list_rr S5_linear) < kBuildIndexThreshold"
    by (simp add: S5_lengths kBuildIndexThreshold_def)
  have td1: "todo (rr_view_of S5_indexed) = [1]" by (simp add: S5_indexed_facts(3))
  have td2: "todo (rr_view_of S5_linear) = [1]" by (simp add: S5_linear_facts(3))
  have sn2: "seen (rr_view_of S5_linear) =
      2 # [3, 4, 5, 6, 7, 8, 9, 10, 11, 12, 13, 14, 15, 16]"
    by (simp add: S5_linear_facts(3))
  note a = duplicate_at_cursor_indexed[OF S5_indexed_facts(1,2) big td1, of None]
  note b = duplicate_at_cursor_linear[OF S5_linear_facts(1,2) small td2 sn2, of None]
  from S5_indexed_facts(1,2) S5_linear_facts(1,2) eq a b show ?thesis
    by (intro conjI)
qed

lemma S5_trace_contract: "no_duplicate_inserts S5_trace (map snd (list_rr S5_indexed))"
  unfolding S5_lengths(3) by (simp add: S5_trace_def)

text \<open>
  C9 (amended) at the two schedulers built above: both are well formed and show the same; the
  index is active in the first and not in the second; the trace inserts no identifier that is
  present and returns the same results on both, in both builds.
\<close>

theorem index_independent_without_duplicates_witness:
  "rr_inv S5_indexed \<and> rr_inv S5_linear \<and> rr_view_of S5_indexed = rr_view_of S5_linear \<and>
   no_duplicate_inserts S5_trace (map snd (list_rr S5_indexed)) \<and>
   useIndexMap_rr S5_indexed \<and> \<not> useIndexMap_rr S5_linear \<and>
   fst (rr_run_NDEBUG S5_trace S5_indexed) = fst (rr_run_NDEBUG S5_trace S5_linear) \<and>
   fst (rr_run S5_trace S5_indexed) = fst (rr_run_NDEBUG S5_trace S5_indexed) \<and>
   fst (rr_run S5_trace S5_linear) =
     [Next 1, Erased True, Erased True, Next 2, Done, Erased True, Next 3, Erased True,
      Erased True, Erased True, Erased True, Erased False, Erased True, Erased True, Next 6,
      Next 7, Done, Next 7, Next 8]"
proof -
  have eq: "rr_view_of S5_indexed = rr_view_of S5_linear"
    unfolding S5_indexed_facts(3) S5_linear_facts(3) by (rule refl)
  note t = index_independent_without_duplicates
             [OF S5_indexed_facts(1) S5_linear_facts(1) eq S5_trace_contract]
  from t have same: "fst (rr_run_NDEBUG S5_trace S5_indexed) = fst (rr_run_NDEBUG S5_trace S5_linear)"
    by (rule conjunct1)
  from t have "rr_run S5_trace S5_indexed = rr_run_NDEBUG S5_trace S5_indexed" by simp
  then have builds: "fst (rr_run S5_trace S5_indexed) = fst (rr_run_NDEBUG S5_trace S5_indexed)"
    by simp
  have out: "fst (rr_run S5_trace S5_linear) =
     [Next 1, Erased True, Erased True, Next 2, Done, Erased True, Next 3, Erased True,
      Erased True, Erased True, Erased True, Erased False, Erased True, Erased True, Next 6,
      Next 7, Done, Next 7, Next 8]"
    unfolding sim_run[OF S5_linear_facts(1), of S5_trace, THEN conjunct1] S5_linear_facts(3)
    by (rule S5_spec_trace)
  from S5_indexed_facts(1,2) S5_linear_facts(1,2) eq S5_trace_contract same builds out
  show ?thesis
    by (intro conjI)
qed
end
